theory Spec2Isabelle
  imports Complex_Main "HOL-Library.AList"
begin

section \<open>Conventions of the embedding\<close>

text \<open>
  The Python sources compute with floats; the embedding computes with exact reals, so
  every statement below is about the arithmetic the code writes down, not about rounding.
  Python integers are \<open>int\<close>, list lengths are \<open>nat\<close>, strings are ASCII \<open>string\<close>s.
  A Python exception is a value of \<open>py_error\<close> on the left of a sum.
\<close>

datatype py_error = ValueError | ZeroDivisionError | IndexError

subsection \<open>\<open>collections.defaultdict\<close>\<close>

text \<open>
  A \<open>defaultdict(float)\<close> or \<open>defaultdict(int)\<close> is a partial map. Reading a missing key
  yields the zero of the value type and stores it: \<open>dd_value\<close> is the value read,
  \<open>dd_touch\<close> the dictionary after the read.
\<close>

definition dd_value :: "('k \<rightharpoonup> 'v::zero) \<Rightarrow> 'k \<Rightarrow> 'v" where
  "dd_value m k = (case m k of None \<Rightarrow> 0 | Some v \<Rightarrow> v)"

definition dd_touch :: "('k \<rightharpoonup> 'v::zero) \<Rightarrow> 'k \<Rightarrow> ('k \<rightharpoonup> 'v)" where
  "dd_touch m k = (case m k of None \<Rightarrow> m(k \<mapsto> 0) | Some v \<Rightarrow> m)"

fun dd_touch_all :: "('k \<rightharpoonup> 'v::zero) \<Rightarrow> 'k list \<Rightarrow> ('k \<rightharpoonup> 'v)" where
  "dd_touch_all m [] = m"
| "dd_touch_all m (k # ks) = dd_touch_all (dd_touch m k) ks"

subsection \<open>The \<open>random\<close> module\<close>

text \<open>
  The random source is the sequence of uniform draws still to come, each in \<open>[0, 1)\<close>.
  \<open>random.random()\<close> consumes one draw. \<open>random.choice(xs)\<close> raises \<open>IndexError\<close> on an
  empty sequence and otherwise consumes one draw \<open>u\<close> and returns the element at index
  \<open>\<lfloor>u * len(xs)\<rfloor>\<close>, so that every index is reachable and equally wide.
\<close>

type_synonym rng = "nat \<Rightarrow> real"

definition valid_rng :: "rng \<Rightarrow> bool" where
  "valid_rng g \<longleftrightarrow> (\<forall>n. 0 \<le> g n \<and> g n < 1)"

definition rng_tail :: "rng \<Rightarrow> rng" where
  "rng_tail g = (\<lambda>n. g (Suc n))"

definition random_random :: "rng \<Rightarrow> real \<times> rng" where
  "random_random g = (g 0, rng_tail g)"

definition choice_index :: "real \<Rightarrow> nat \<Rightarrow> nat" where
  "choice_index u n = nat \<lfloor>u * real n\<rfloor>"

definition random_choice :: "'a list \<Rightarrow> rng \<Rightarrow> py_error + ('a \<times> rng)" where
  "random_choice xs g =
     (if xs = [] then Inl IndexError
      else Inr (xs ! choice_index (g 0) (length xs), rng_tail g))"

section \<open>reward\_calculator.py\<close>

text \<open>
  A scenario is a dictionary; its required keys are fields of the record, the two keys read
  with \<open>scenario.get(key, [])\<close> are optional.
\<close>

record scenario =
  fitness_level :: string
  time_available :: real
  best_category :: string
  good_categories :: "string list option"
  bad_categories :: "string list option"

definition get_list :: "string list option \<Rightarrow> string list" where
  "get_list v = (case v of None \<Rightarrow> [] | Some xs \<Rightarrow> xs)"

definition compute_category_reward :: "scenario \<Rightarrow> string \<Rightarrow> real" where
  "compute_category_reward sc chosen_category =
     (if chosen_category = best_category sc then 1
      else if chosen_category \<in> set (get_list (good_categories sc)) then 1 / 2
      else if chosen_category \<in> set (get_list (bad_categories sc)) then - (2 / 10)
      else 0)"

text \<open>An exercise is the dictionary built by \<open>WorkoutAgent.select_exercise\<close>.\<close>

record exercise =
  category :: string
  difficulty :: string
  name :: string
  estimated_time :: nat
  adjusted_difficulty :: "string option"

text \<open>
  In \<open>compute_workout_quality\<close> the body of the \<open>for\<close> loop is the single assignment
  \<open>category = exercise['category']\<close>; the \<open>if\<close>/\<open>elif\<close> that follows is outside the loop
  and sees the category of the last exercise only.
\<close>

fun last_category :: "string \<Rightarrow> exercise list \<Rightarrow> string" where
  "last_category cat [] = cat"
| "last_category cat (ex # exs) = last_category (category ex) exs"

definition compute_workout_quality :: "exercise list \<Rightarrow> scenario \<Rightarrow> real" where
  "compute_workout_quality exercises_selected sc =
     (case exercises_selected of
        [] \<Rightarrow> 0
      | ex0 # exs \<Rightarrow>
          (let exercise_categories = map category exercises_selected;
               unique_types = card (set exercise_categories);
               variety_score = real unique_types * (3 / 10);
               estimated_time = length exercises_selected * 15;
               time_score = (if real estimated_time \<le> time_available sc then 5 / 10
                             else - (3 / 10));
               cat = last_category (category ex0) exs;
               goal_alignment =
                 (if cat = best_category sc then 0 + 4 / 10
                  else if cat \<in> set (get_list (good_categories sc)) then 0 + 2 / 10
                  else 0)
           in variety_score + time_score + goal_alignment))"

text \<open>
  The scorer as the specification words it: the bonus accumulates over all exercises,
  \<open>0.4\<close> for an exercise of the best category and \<open>0.2\<close> for one of a good category.
\<close>

definition goal_alignment_spec :: "exercise list \<Rightarrow> scenario \<Rightarrow> real" where
  "goal_alignment_spec exs sc =
     (\<Sum>ex\<leftarrow>exs. (if category ex = best_category sc then 4 / 10
                 else if category ex \<in> set (get_list (good_categories sc)) then 2 / 10
                 else 0))"

definition workout_quality_spec :: "exercise list \<Rightarrow> scenario \<Rightarrow> real" where
  "workout_quality_spec exs sc =
     real (card (set (map category exs))) * (3 / 10)
     + (if real (length exs * 15) \<le> time_available sc then 5 / 10 else - (3 / 10))
     + goal_alignment_spec exs sc"

definition get_intensity_level :: "real \<Rightarrow> string" where
  "get_intensity_level avg_reward =
     (if avg_reward > 7 / 10 then ''high''
      else if avg_reward > 3 / 10 then ''medium''
      else ''low'')"

definition get_time_bucket :: "nat \<Rightarrow> real \<Rightarrow> string" where
  "get_time_bucket exercises_count time_avail =
     (let estimated_time_used = exercises_count * 15;
          time_remaining = time_avail - real estimated_time_used
      in if time_remaining > 30 then ''plenty''
         else if time_remaining > 15 then ''medium''
         else ''limited'')"

text \<open>\<open>str.lower\<close> and \<open>str.title\<close> on ASCII strings.\<close>

definition is_upper :: "char \<Rightarrow> bool" where
  "is_upper ch \<longleftrightarrow> 65 \<le> (of_char ch :: nat) \<and> (of_char ch :: nat) \<le> 90"

definition is_lower :: "char \<Rightarrow> bool" where
  "is_lower ch \<longleftrightarrow> 97 \<le> (of_char ch :: nat) \<and> (of_char ch :: nat) \<le> 122"

definition lower_char :: "char \<Rightarrow> char" where
  "lower_char ch = (if is_upper ch then char_of ((of_char ch :: nat) + 32) else ch)"

definition upper_char :: "char \<Rightarrow> char" where
  "upper_char ch = (if is_lower ch then char_of ((of_char ch :: nat) - 32) else ch)"

definition str_lower :: "string \<Rightarrow> string" where
  "str_lower s = map lower_char s"

fun title_from :: "bool \<Rightarrow> string \<Rightarrow> string" where
  "title_from prev_cased [] = []"
| "title_from prev_cased (ch # chs) =
     (if is_upper ch \<or> is_lower ch
      then (if prev_cased then lower_char ch else upper_char ch) # title_from True chs
      else ch # title_from False chs)"

definition str_title :: "string \<Rightarrow> string" where
  "str_title s = title_from False s"

definition get_fitness_level_bucket :: "string \<Rightarrow> string" where
  "get_fitness_level_bucket level = str_lower level"

text \<open>
  The built-in \<open>max\<close> raises \<open>ValueError\<close> on an empty sequence. A comprehension that reads
  a \<open>defaultdict\<close> at a list of keys returns the values and the dictionary with those keys
  stored.
\<close>

fun py_max :: "'a::linorder list \<Rightarrow> py_error + 'a" where
  "py_max [] = Inl ValueError"
| "py_max (x # xs) = Inr (fold max xs x)"

fun dd_read_all :: "('k \<rightharpoonup> 'v::zero) \<Rightarrow> 'k list \<Rightarrow> 'v list \<times> ('k \<rightharpoonup> 'v)" where
  "dd_read_all m [] = ([], m)"
| "dd_read_all m (k # ks) =
     (case dd_read_all (dd_touch m k) ks of (vs, m') \<Rightarrow> (dd_value m k # vs, m'))"

section \<open>ucb\_selector.py\<close>

record bandit =
  actions :: "string list"
  ucb_c :: real
  q_values :: "string \<rightharpoonup> real"
  action_counts :: "string \<rightharpoonup> int"
  total_steps :: int

definition UCBBandit_init :: "string list \<Rightarrow> real \<Rightarrow> bandit" where
  "UCBBandit_init acts cc =
     \<lparr>actions = acts, ucb_c = cc, q_values = Map.empty, action_counts = Map.empty,
      total_steps = 0\<rparr>"

text \<open>Phase 1 of \<open>select_action\<close>: the first action whose count reads as zero.\<close>

fun first_unpulled :: "string list \<Rightarrow> (string \<rightharpoonup> int) \<Rightarrow> string option \<times> (string \<rightharpoonup> int)" where
  "first_unpulled [] cnt = (None, cnt)"
| "first_unpulled (a # as) cnt =
     (if dd_value cnt a = 0 then (Some a, dd_touch cnt a)
      else first_unpulled as (dd_touch cnt a))"

text \<open>
  The exploration term \<open>c * math.sqrt(math.log(total_steps) / n_action)\<close>, in the order
  Python evaluates it: \<open>math.log\<close> raises \<open>ValueError\<close> on a non-positive argument, the
  division raises \<open>ZeroDivisionError\<close>, \<open>math.sqrt\<close> raises \<open>ValueError\<close> on a negative one.
\<close>

definition ucb_explore :: "real \<Rightarrow> int \<Rightarrow> int \<Rightarrow> py_error + real" where
  "ucb_explore cc steps n_action =
     (if steps \<le> 0 then Inl ValueError
      else if n_action = 0 then Inl ZeroDivisionError
      else if ln (real_of_int steps) / real_of_int n_action < 0 then Inl ValueError
      else Inr (cc * sqrt (ln (real_of_int steps) / real_of_int n_action)))"

text \<open>
  Phase 2: the loop that fills the dictionary \<open>ucb_scores\<close> (insertion-ordered; assigning
  to a key already present keeps its position).
\<close>

fun ucb_scores_loop ::
  "real \<Rightarrow> int \<Rightarrow> string list \<Rightarrow> (string \<rightharpoonup> int) \<Rightarrow> (string \<rightharpoonup> real) \<Rightarrow> (string \<times> real) list
   \<Rightarrow> py_error + ((string \<times> real) list \<times> (string \<rightharpoonup> int) \<times> (string \<rightharpoonup> real))" where
  "ucb_scores_loop cc steps [] cnt qv scores = Inr (scores, cnt, qv)"
| "ucb_scores_loop cc steps (a # as) cnt qv scores =
     (let n_action = dd_value cnt a;
          exploit = dd_value qv a
      in case ucb_explore cc steps n_action of
           Inl e \<Rightarrow> Inl e
         | Inr explore \<Rightarrow>
             ucb_scores_loop cc steps as (dd_touch cnt a) (dd_touch qv a)
               (AList.update a (exploit + explore) scores))"

definition ucb_phase :: "bandit \<Rightarrow> rng \<Rightarrow> py_error + (string \<times> bandit \<times> rng)" where
  "ucb_phase b g =
     (case ucb_scores_loop (ucb_c b) (total_steps b) (actions b) (action_counts b)
             (q_values b) [] of
        Inl e \<Rightarrow> Inl e
      | Inr (ucb_scores, cnt, qv) \<Rightarrow>
          (case py_max (map snd ucb_scores) of
             Inl e \<Rightarrow> Inl e
           | Inr max_score \<Rightarrow>
               (case random_choice
                       (map fst (filter (\<lambda>(a, score). score = max_score) ucb_scores)) g of
                  Inl e \<Rightarrow> Inl e
                | Inr (a, g') \<Rightarrow> Inr (a, b\<lparr>q_values := qv, action_counts := cnt\<rparr>, g'))))"

definition UCBBandit_select_action :: "bandit \<Rightarrow> rng \<Rightarrow> py_error + (string \<times> bandit \<times> rng)" where
  "UCBBandit_select_action b g =
     (let b1 = b\<lparr>total_steps := total_steps b + 1\<rparr>
      in case first_unpulled (actions b1) (action_counts b1) of
           (Some a, cnt) \<Rightarrow> Inr (a, b1\<lparr>action_counts := cnt\<rparr>, g)
         | (None, cnt) \<Rightarrow> ucb_phase (b1\<lparr>action_counts := cnt\<rparr>) g)"

definition UCBBandit_update :: "bandit \<Rightarrow> string \<Rightarrow> real \<Rightarrow> py_error + bandit" where
  "UCBBandit_update b action reward =
     (let n = dd_value (action_counts b) action + 1;
          old_q = dd_value (q_values b) action
      in if n = 0 then Inl ZeroDivisionError
         else Inr (b\<lparr>q_values := (q_values b)(action \<mapsto> old_q + (reward - old_q) / real_of_int n),
                     action_counts := (action_counts b)(action \<mapsto> n)\<rparr>))"

text \<open>Calling \<open>update(arm, r)\<close> for each reward of a list, in order.\<close>

fun update_many :: "bandit \<Rightarrow> string \<Rightarrow> real list \<Rightarrow> py_error + bandit" where
  "update_many b arm [] = Inr b"
| "update_many b arm (r # rs) =
     (case UCBBandit_update b arm r of Inl e \<Rightarrow> Inl e | Inr b' \<Rightarrow> update_many b' arm rs)"

text \<open>
  The counters are only ever incremented from zero, so in every state the object reaches
  they are non-negative.
\<close>

definition bandit_inv :: "bandit \<Rightarrow> bool" where
  "bandit_inv b \<longleftrightarrow> 0 \<le> total_steps b \<and> (\<forall>a. 0 \<le> dd_value (action_counts b) a)"

section \<open>q\_learner.py\<close>

record 's q_agent =
  agent_actions :: "string list"
  alpha :: real
  gamma :: real
  epsilon :: real
  q_table :: "('s \<times> string) \<rightharpoonup> real"

definition QLearningAgent_init :: "string list \<Rightarrow> real \<Rightarrow> real \<Rightarrow> real \<Rightarrow> 's q_agent" where
  "QLearningAgent_init acts al ga ep =
     \<lparr>agent_actions = acts, alpha = al, gamma = ga, epsilon = ep, q_table = Map.empty\<rparr>"

definition QLearningAgent_select_action ::
  "'s q_agent \<Rightarrow> 's \<Rightarrow> rng \<Rightarrow> py_error + (string \<times> 's q_agent \<times> rng)" where
  "QLearningAgent_select_action ag st g =
     (case random_random g of
        (u, g1) \<Rightarrow>
          if u < epsilon ag
          then (case random_choice (agent_actions ag) g1 of
                  Inl e \<Rightarrow> Inl e
                | Inr (a, g2) \<Rightarrow> Inr (a, ag, g2))
          else (case dd_read_all (q_table ag) (map (Pair st) (agent_actions ag)) of
                  (qs, tbl) \<Rightarrow>
                    (case py_max qs of
                       Inl e \<Rightarrow> Inl e
                     | Inr max_q \<Rightarrow>
                         (case random_choice
                                 (filter (\<lambda>a. dd_value tbl (st, a) = max_q) (agent_actions ag))
                                 g1 of
                            Inl e \<Rightarrow> Inl e
                          | Inr (a, g2) \<Rightarrow> Inr (a, ag\<lparr>q_table := tbl\<rparr>, g2)))))"

definition QLearningAgent_update ::
  "'s q_agent \<Rightarrow> 's \<Rightarrow> string \<Rightarrow> real \<Rightarrow> 's \<Rightarrow> py_error + 's q_agent" where
  "QLearningAgent_update ag st action reward next_state =
     (case dd_read_all (q_table ag) (map (Pair next_state) (agent_actions ag)) of
        (next_qs, tbl) \<Rightarrow>
          (case py_max next_qs of
             Inl e \<Rightarrow> Inl e
           | Inr max_next_q \<Rightarrow>
               (let old_q = dd_value tbl (st, action)
                in Inr (ag\<lparr>q_table := tbl((st, action) \<mapsto>
                          old_q + alpha ag * (reward + gamma ag * max_next_q - old_q))\<rparr>))))"

section \<open>fitness\_agents.py\<close>

definition select_exercise :: "string \<Rightarrow> string \<Rightarrow> exercise" where
  "select_exercise cat level =
     \<lparr>category = cat, difficulty = level, name = str_title cat @ '' Exercise'',
      estimated_time = 15, adjusted_difficulty = None\<rparr>"

definition adjust_intensity :: "exercise \<Rightarrow> string \<Rightarrow> exercise" where
  "adjust_intensity ex target_level = ex\<lparr>adjusted_difficulty := Some target_level\<rparr>"

definition get_intensity_recommendation :: "string \<Rightarrow> nat \<Rightarrow> string" where
  "get_intensity_recommendation level exercises_count =
     (if exercises_count \<ge> 4
      then (if level = ''advanced'' then ''intermediate''
            else if level = ''intermediate'' then ''beginner''
            else if level = ''beginner'' then ''beginner''
            else level)
      else level)"

text \<open>The state of the Q-learner: count bucket, intensity, time bucket, fitness level.\<close>

type_synonym state = "nat \<times> string \<times> string \<times> string"

definition get_state :: "exercise list \<Rightarrow> real list \<Rightarrow> scenario \<Rightarrow> state" where
  "get_state exercises exercise_rewards sc =
     (let exercise_count = length exercises;
          count_bucket = (if exercise_count \<ge> 3 then 3 else exercise_count);
          avg_reward = (if exercise_rewards \<noteq> []
                        then sum_list exercise_rewards / real (length exercise_rewards)
                        else 0);
          intensity = get_intensity_level avg_reward;
          time_status = get_time_bucket exercise_count (time_available sc);
          fitness = get_fitness_level_bucket (fitness_level sc)
      in (count_bucket, intensity, time_status, fitness))"

definition map_action_to_category :: "string \<Rightarrow> string option" where
  "map_action_to_category action =
     (if action = ''add_strength'' then Some ''strength''
      else if action = ''add_cardio'' then Some ''cardio''
      else if action = ''add_flexibility'' then Some ''flexibility''
      else None)"

text \<open>
  The local variables of \<open>run_episode\<close>, together with the two learners the controller
  holds and the random source.
\<close>

record episode =
  ep_exercises :: "exercise list"
  ep_exercise_rewards :: "real list"
  ep_done :: bool
  ep_state :: state
  ep_total_reward :: real
  ep_total_exercises :: int
  ep_bandit :: bandit
  ep_q_agent :: "state q_agent"
  ep_rng :: rng

definition max_exercises :: int where
  "max_exercises = 6"

text \<open>
  The \<open>if action == "finalize" \<dots> else \<dots>\<close> of the loop body: the step reward and the
  locals after it. \<open>if category:\<close> is false for \<open>None\<close> and for the empty string.
\<close>

definition step_action ::
  "scenario \<Rightarrow> (scenario \<Rightarrow> string \<Rightarrow> real) \<Rightarrow> string \<Rightarrow> episode \<Rightarrow> py_error + (real \<times> episode)" where
  "step_action sc reward_fn action ep =
     (if action = ''finalize''
      then Inr (if ep_exercises ep \<noteq> [] then compute_workout_quality (ep_exercises ep) sc
                else - 1,
                ep\<lparr>ep_done := True\<rparr>)
      else (case map_action_to_category action of
              None \<Rightarrow> Inr (- (1 / 10), ep)
            | Some cat \<Rightarrow>
                if cat = [] then Inr (- (1 / 10), ep)
                else (let ex = adjust_intensity
                                 (select_exercise cat (fitness_level sc))
                                 (get_intensity_recommendation (fitness_level sc)
                                    (length (ep_exercises ep)));
                          category_reward = reward_fn sc cat
                      in case UCBBandit_update (ep_bandit ep) cat category_reward of
                           Inl e \<Rightarrow> Inl e
                         | Inr b' \<Rightarrow>
                             Inr (category_reward - 5 / 100,
                                  ep\<lparr>ep_exercises := ep_exercises ep @ [ex],
                                     ep_exercise_rewards :=
                                       ep_exercise_rewards ep @ [category_reward],
                                     ep_total_exercises := ep_total_exercises ep + 1,
                                     ep_bandit := b'\<rparr>))))"

text \<open>One iteration of the \<open>while\<close> loop: the step reward and the locals after it.\<close>

definition episode_step ::
  "scenario \<Rightarrow> (scenario \<Rightarrow> string \<Rightarrow> real) \<Rightarrow> episode \<Rightarrow> py_error + (real \<times> episode)" where
  "episode_step sc reward_fn ep =
     (case QLearningAgent_select_action (ep_q_agent ep) (ep_state ep) (ep_rng ep) of
        Inl e \<Rightarrow> Inl e
      | Inr (action, ag1, g1) \<Rightarrow>
          (case step_action sc reward_fn action ep of
             Inl e \<Rightarrow> Inl e
           | Inr (step_reward, ep1) \<Rightarrow>
               (let next_state = get_state (ep_exercises ep1) (ep_exercise_rewards ep1) sc
                in case QLearningAgent_update ag1 (ep_state ep) action step_reward next_state of
                     Inl e \<Rightarrow> Inl e
                   | Inr ag2 \<Rightarrow>
                       Inr (step_reward,
                            ep1\<lparr>ep_total_reward := ep_total_reward ep1 + step_reward,
                                ep_state := next_state,
                                ep_q_agent := ag2,
                                ep_rng := g1\<rparr>))))"

text \<open>
  The \<open>while\<close> loop, with a bound on the number of iterations it may run: \<open>None\<close> means
  the bound was reached with the loop condition still true.
\<close>

fun run_loop ::
  "nat \<Rightarrow> scenario \<Rightarrow> (scenario \<Rightarrow> string \<Rightarrow> real) \<Rightarrow> episode \<Rightarrow> (py_error + episode) option" where
  "run_loop 0 sc reward_fn ep =
     (if \<not> ep_done ep \<and> ep_total_exercises ep < max_exercises then None
      else Some (Inr ep))"
| "run_loop (Suc fuel) sc reward_fn ep =
     (if \<not> ep_done ep \<and> ep_total_exercises ep < max_exercises
      then (case episode_step sc reward_fn ep of
              Inl e \<Rightarrow> Some (Inl e)
            | Inr (step_reward, ep') \<Rightarrow> run_loop fuel sc reward_fn ep')
      else Some (Inr ep))"

text \<open>
  The locals at the head of the loop after \<open>n\<close> completed iterations of the loop started
  at \<open>ep\<close>: \<open>None\<close> when the loop has stopped, or raised, before that.
\<close>

fun loop_after ::
  "nat \<Rightarrow> scenario \<Rightarrow> (scenario \<Rightarrow> string \<Rightarrow> real) \<Rightarrow> episode \<Rightarrow> episode option" where
  "loop_after 0 sc reward_fn ep = Some ep"
| "loop_after (Suc n) sc reward_fn ep =
     (if \<not> ep_done ep \<and> ep_total_exercises ep < max_exercises
      then (case episode_step sc reward_fn ep of
              Inl e \<Rightarrow> None
            | Inr (step_reward, ep') \<Rightarrow> loop_after n sc reward_fn ep')
      else None)"

definition initial_episode :: "bandit \<Rightarrow> state q_agent \<Rightarrow> rng \<Rightarrow> scenario \<Rightarrow> episode" where
  "initial_episode b ag g sc =
     \<lparr>ep_exercises = [], ep_exercise_rewards = [], ep_done = False,
      ep_state = get_state [] [] sc, ep_total_reward = 0, ep_total_exercises = 0,
      ep_bandit = b, ep_q_agent = ag, ep_rng = g\<rparr>"

definition run_episode ::
  "nat \<Rightarrow> bandit \<Rightarrow> state q_agent \<Rightarrow> rng \<Rightarrow> scenario \<Rightarrow> (scenario \<Rightarrow> string \<Rightarrow> real)
   \<Rightarrow> (py_error + ((real \<times> int) \<times> bandit \<times> state q_agent \<times> rng)) option" where
  "run_episode fuel b ag g sc reward_fn =
     (case run_loop fuel sc reward_fn (initial_episode b ag g sc) of
        None \<Rightarrow> None
      | Some (Inl e) \<Rightarrow> Some (Inl e)
      | Some (Inr ep) \<Rightarrow>
          Some (Inr ((ep_total_reward ep, ep_total_exercises ep),
                     ep_bandit ep, ep_q_agent ep, ep_rng ep)))"

text \<open>The four actions the controller declares.\<close>

definition controller_actions :: "string list" where
  "controller_actions = [''add_strength'', ''add_cardio'', ''add_flexibility'', ''finalize'']"

section \<open>train\_rl.py\<close>

text \<open>
  The learners as \<open>main\<close> constructs them, and the scenario of the specification's
  worked examples (the scenario file itself is data, not code).
\<close>

definition exercise_categories :: "string list" where
  "exercise_categories =
     [''strength'', ''cardio'', ''flexibility'', ''compound'', ''isolation'', ''hiit'',
      ''plyometric'', ''yoga'', ''low_impact'']"

definition main_bandit :: bandit where
  "main_bandit = UCBBandit_init exercise_categories 2"

definition main_q_agent :: "state q_agent" where
  "main_q_agent = QLearningAgent_init controller_actions (1 / 10) (9 / 10) (1 / 10)"

definition example_scenario :: scenario where
  "example_scenario =
     \<lparr>fitness_level = ''intermediate'', time_available = 60, best_category = ''strength'',
      good_categories = Some [''compound''], bad_categories = Some [''yoga'']\<rparr>"


section \<open>Dictionaries, \<open>max\<close> and random draws\<close>

lemma dd_value_touch [simp]: "dd_value (dd_touch m k) k' = dd_value m k'"
  by (simp add: dd_value_def dd_touch_def split: option.splits)

lemma dom_dd_touch [simp]: "dom (dd_touch m k) = insert k (dom m)"
  by (auto simp: dd_touch_def split: option.splits)

lemma dd_touch_nonzero: "dd_value m k \<noteq> 0 \<Longrightarrow> dd_touch m k = m"
  by (simp add: dd_value_def dd_touch_def split: option.splits)

lemma dd_touch_stored: "m k' = Some v \<Longrightarrow> dd_touch m k k' = Some v"
  by (auto simp: dd_touch_def split: option.splits)

lemma dd_value_touch_all [simp]: "dd_value (dd_touch_all m ks) k' = dd_value m k'"
  by (induction ks arbitrary: m) simp_all

lemma dom_dd_touch_all [simp]: "dom (dd_touch_all m ks) = set ks \<union> dom m"
  by (induction ks arbitrary: m) auto

lemma dd_touch_all_stored: "m k' = Some v \<Longrightarrow> dd_touch_all m ks k' = Some v"
  by (induction ks arbitrary: m) (simp_all add: dd_touch_stored)

lemma dd_read_all_eq: "dd_read_all m ks = (map (dd_value m) ks, dd_touch_all m ks)"
  by (induction ks arbitrary: m) simp_all

lemma dd_value_empty [simp]: "dd_value Map.empty k = 0"
  by (simp add: dd_value_def)

lemma py_max_Inr: "xs \<noteq> [] \<Longrightarrow> py_max xs = Inr (Max (set xs))"
  by (cases xs) (simp_all add: Max.set_eq_fold [symmetric])

lemma max_filter_nonempty:
  assumes "xs \<noteq> []"
  shows "filter (\<lambda>a. f a = Max (f ` set xs)) xs \<noteq> []"
proof -
  have "Max (f ` set xs) \<in> f ` set xs" using assms by (intro Max_in) simp_all
  then show ?thesis by (auto simp: filter_empty_conv)
qed

lemma choice_index_less:
  assumes "0 \<le> u" "u < 1" "0 < n"
  shows "choice_index u n < n"
proof -
  have "u * real n < real n" using assms by simp
  then have "\<lfloor>u * real n\<rfloor> < int n" by (simp add: floor_less_iff)
  moreover have "0 \<le> \<lfloor>u * real n\<rfloor>" using assms by simp
  ultimately show ?thesis by (simp add: choice_index_def nat_less_iff)
qed

lemma choice_index_interval:
  assumes "0 \<le> u" "0 < n"
  shows "choice_index u n = i \<longleftrightarrow> real i / real n \<le> u \<and> u < (real i + 1) / real n"
proof -
  have nn: "0 \<le> \<lfloor>u * real n\<rfloor>" using assms by simp
  have "choice_index u n = i \<longleftrightarrow> \<lfloor>u * real n\<rfloor> = int i"
    using nn by (auto simp: choice_index_def)
  also have "\<dots> \<longleftrightarrow> real i \<le> u * real n \<and> u * real n < real i + 1"
    by (simp add: floor_eq_iff)
  also have "\<dots> \<longleftrightarrow> real i / real n \<le> u \<and> u < (real i + 1) / real n"
    using assms(2) by (simp add: field_simps)
  finally show ?thesis .
qed

lemma valid_rng_tail: "valid_rng g \<Longrightarrow> valid_rng (rng_tail g)"
  by (simp add: valid_rng_def rng_tail_def)

lemma random_choice_ok:
  "xs \<noteq> [] \<Longrightarrow> random_choice xs g = Inr (xs ! choice_index (g 0) (length xs), rng_tail g)"
  by (simp add: random_choice_def)

lemma random_choice_valid:
  assumes "valid_rng g" "xs \<noteq> []"
  shows "random_choice xs g = Inr (xs ! choice_index (g 0) (length xs), rng_tail g)
         \<and> xs ! choice_index (g 0) (length xs) \<in> set xs \<and> valid_rng (rng_tail g)"
proof -
  have "choice_index (g 0) (length xs) < length xs"
    using assms by (intro choice_index_less) (simp_all add: valid_rng_def)
  then show ?thesis using assms by (simp add: random_choice_def valid_rng_def rng_tail_def)
qed

lemma random_choice_InrD:
  assumes "valid_rng g" and "random_choice xs g = Inr (a, g')"
  shows "a \<in> set xs \<and> valid_rng g'"
proof -
  have ne: "xs \<noteq> []" using assms(2) by (auto simp: random_choice_def)
  from random_choice_valid [OF assms(1) ne] assms(2) show ?thesis by simp
qed

section \<open>Properties of reward\_calculator.py\<close>

text \<open>
  Claim C10. \<open>compute_category_reward\<close> tests best, then good, then bad: a category equal
  to the scenario's best category scores 1.0 whatever lists it also appears in; a category
  in the good list that is not the best scores 0.5 even when it is in the bad list too; and
  a scenario without the \<open>good_categories\<close> or \<open>bad_categories\<close> key scores as the same
  scenario with that key bound to the empty list (the function has no error result).
\<close>

theorem category_reward_priority:
  "(chosen = best_category sc \<longrightarrow> compute_category_reward sc chosen = 1)
   \<and> (chosen \<noteq> best_category sc \<and> chosen \<in> set (get_list (good_categories sc))
        \<longrightarrow> compute_category_reward sc chosen = 1 / 2)
   \<and> compute_category_reward (sc\<lparr>good_categories := None\<rparr>) chosen
        = compute_category_reward (sc\<lparr>good_categories := Some []\<rparr>) chosen
   \<and> compute_category_reward (sc\<lparr>bad_categories := None\<rparr>) chosen
        = compute_category_reward (sc\<lparr>bad_categories := Some []\<rparr>) chosen"
  by (auto simp: compute_category_reward_def get_list_def split: option.splits)

theorem category_reward_priority_witness:
  "compute_category_reward
     \<lparr>fitness_level = ''intermediate'', time_available = 60, best_category = ''strength'',
      good_categories = Some [''strength'', ''compound''],
      bad_categories = Some [''strength'', ''compound'']\<rparr> ''strength'' = 1
   \<and> compute_category_reward
     \<lparr>fitness_level = ''intermediate'', time_available = 60, best_category = ''strength'',
      good_categories = Some [''strength'', ''compound''],
      bad_categories = Some [''strength'', ''compound'']\<rparr> ''compound'' = 1 / 2"
  using category_reward_priority
    [where chosen = "''strength''" and sc =
        "\<lparr>fitness_level = ''intermediate'', time_available = 60, best_category = ''strength'',
          good_categories = Some [''strength'', ''compound''],
          bad_categories = Some [''strength'', ''compound'']\<rparr>"]
    category_reward_priority
    [where chosen = "''compound''" and sc =
        "\<lparr>fitness_level = ''intermediate'', time_available = 60, best_category = ''strength'',
          good_categories = Some [''strength'', ''compound''],
          bad_categories = Some [''strength'', ''compound'']\<rparr>"]
  by (simp add: get_list_def)

lemma last_category_eq: "last_category cat exs = last (cat # map category exs)"
  by (induction exs arbitrary: cat) simp_all

lemma compute_workout_quality_last:
  assumes "exs \<noteq> []"
  shows "compute_workout_quality exs sc =
     real (card (set (map category exs))) * (3 / 10)
     + (if real (length exs * 15) \<le> time_available sc then 5 / 10 else - (3 / 10))
     + (if category (last exs) = best_category sc then 4 / 10
        else if category (last exs) \<in> set (get_list (good_categories sc)) then 2 / 10
        else 0)"
proof -
  obtain ex0 rest where e: "exs = ex0 # rest" using assms by (cases exs) auto
  have "last_category (category ex0) rest = category (last exs)"
    by (simp add: last_category_eq e last_map)
  then show ?thesis
    by (simp add: compute_workout_quality_def e Let_def)
qed

text \<open>
  Claim C1. The specification's scorer adds the goal bonus once per exercise. The code adds
  it at most once, for the last exercise: on two strength exercises for a scenario whose
  best category is strength and whose time budget is 60 minutes the code returns
  \<open>0.3 + 0.5 + 0.4 = 1.2\<close>, the specification's formula \<open>0.3 + 0.5 + 0.8 = 1.6\<close>.
\<close>

theorem workout_quality_last_only:
  "compute_workout_quality
     [\<lparr>category = ''strength'', difficulty = ''beginner'', name = ''Strength Exercise'',
       estimated_time = 15, adjusted_difficulty = Some ''beginner''\<rparr>,
      \<lparr>category = ''strength'', difficulty = ''beginner'', name = ''Strength Exercise'',
       estimated_time = 15, adjusted_difficulty = Some ''beginner''\<rparr>]
     \<lparr>fitness_level = ''beginner'', time_available = 60, best_category = ''strength'',
      good_categories = None, bad_categories = None\<rparr> = 12 / 10
   \<and> workout_quality_spec
     [\<lparr>category = ''strength'', difficulty = ''beginner'', name = ''Strength Exercise'',
       estimated_time = 15, adjusted_difficulty = Some ''beginner''\<rparr>,
      \<lparr>category = ''strength'', difficulty = ''beginner'', name = ''Strength Exercise'',
       estimated_time = 15, adjusted_difficulty = Some ''beginner''\<rparr>]
     \<lparr>fitness_level = ''beginner'', time_available = 60, best_category = ''strength'',
      good_categories = None, bad_categories = None\<rparr> = 16 / 10"
  by (simp add: compute_workout_quality_def workout_quality_spec_def goal_alignment_spec_def
      get_list_def)

section \<open>Properties of ucb\_selector.py\<close>

lemma update_step:
  assumes "0 \<le> dd_value (action_counts b) arm"
  shows "\<exists>b'. UCBBandit_update b arm r = Inr b'
      \<and> dd_value (action_counts b') arm = dd_value (action_counts b) arm + 1
      \<and> dd_value (q_values b') arm * real_of_int (dd_value (action_counts b') arm)
          = dd_value (q_values b) arm * real_of_int (dd_value (action_counts b) arm) + r"
  using assms
  by (simp add: UCBBandit_update_def Let_def dd_value_def field_simps)

lemma update_many_sum:
  assumes "0 \<le> dd_value (action_counts b) arm"
  shows "\<exists>b'. update_many b arm rs = Inr b'
      \<and> dd_value (action_counts b') arm = dd_value (action_counts b) arm + int (length rs)
      \<and> dd_value (q_values b') arm * real_of_int (dd_value (action_counts b') arm)
          = dd_value (q_values b) arm * real_of_int (dd_value (action_counts b) arm) + sum_list rs"
  using assms
proof (induction rs arbitrary: b)
  case Nil
  then show ?case by simp
next
  case (Cons r rs)
  from update_step [OF Cons.prems, of r] obtain b1 where
    b1: "UCBBandit_update b arm r = Inr b1"
        "dd_value (action_counts b1) arm = dd_value (action_counts b) arm + 1"
        "dd_value (q_values b1) arm * real_of_int (dd_value (action_counts b1) arm)
          = dd_value (q_values b) arm * real_of_int (dd_value (action_counts b) arm) + r"
    by blast
  have "0 \<le> dd_value (action_counts b1) arm" using b1(2) Cons.prems by simp
  from Cons.IH [OF this] obtain b' where
    b': "update_many b1 arm rs = Inr b'"
        "dd_value (action_counts b') arm = dd_value (action_counts b1) arm + int (length rs)"
        "dd_value (q_values b') arm * real_of_int (dd_value (action_counts b') arm)
          = dd_value (q_values b1) arm * real_of_int (dd_value (action_counts b1) arm) + sum_list rs"
    by blast
  show ?case using b1 b' by simp
qed

text \<open>
  Claim C4. Starting from any bandit state in which the arm has not been pulled, calling
  \<open>update(arm, r)\<close> for the rewards \<open>r\<^sub>1, \<dots>, r\<^sub>n\<close> in order succeeds, leaves
  \<open>action_counts[arm] = n\<close> and, for \<open>n > 0\<close>, leaves \<open>q_values[arm]\<close> equal to the
  arithmetic mean of the rewards (exactly, over the reals).
\<close>

theorem incremental_mean:
  assumes "dd_value (action_counts b) arm = 0"
  shows "\<exists>b'. update_many b arm rs = Inr b'
      \<and> dd_value (action_counts b') arm = int (length rs)
      \<and> (rs \<noteq> [] \<longrightarrow> dd_value (q_values b') arm = sum_list rs / real (length rs))"
proof -
  have "0 \<le> dd_value (action_counts b) arm" using assms by simp
  from update_many_sum [OF this, of rs] obtain b' where
    b': "update_many b arm rs = Inr b'"
        "dd_value (action_counts b') arm = dd_value (action_counts b) arm + int (length rs)"
        "dd_value (q_values b') arm * real_of_int (dd_value (action_counts b') arm)
          = dd_value (q_values b) arm * real_of_int (dd_value (action_counts b) arm) + sum_list rs"
    by blast
  have "rs \<noteq> [] \<longrightarrow> dd_value (q_values b') arm = sum_list rs / real (length rs)"
    using b'(2,3) assms by (simp add: field_simps)
  then show ?thesis using b' assms by simp
qed

theorem incremental_mean_witness:
  "\<exists>b'. update_many (UCBBandit_init [''strength'', ''cardio''] 2) ''cardio'' [1, 1 / 2, 0] = Inr b'
      \<and> dd_value (action_counts b') ''cardio'' = 3
      \<and> dd_value (q_values b') ''cardio'' = 1 / 2"
  using incremental_mean [of "UCBBandit_init [''strength'', ''cardio''] 2" "''cardio''" "[1, 1 / 2, 0]"]
  by (simp add: UCBBandit_init_def dd_value_def)

lemma bandit_inv_init: "bandit_inv (UCBBandit_init acts cc)"
  by (simp add: bandit_inv_def UCBBandit_init_def dd_value_def)

lemma bandit_inv_update:
  assumes "bandit_inv b"
  shows "\<exists>b'. UCBBandit_update b a r = Inr b' \<and> bandit_inv b'"
proof -
  have a: "0 \<le> dd_value (action_counts b) a" and all: "\<And>x. 0 \<le> dd_value (action_counts b) x"
    and st: "0 \<le> total_steps b"
    using assms by (simp_all add: bandit_inv_def)
  have "dd_value (action_counts b) a + 1 \<noteq> 0" using a by simp
  moreover have "0 \<le> dd_value ((action_counts b)(a \<mapsto> dd_value (action_counts b) a + 1)) x" for x
    using a all [of x] by (simp add: dd_value_def)
  ultimately show ?thesis using st by (simp add: UCBBandit_update_def Let_def bandit_inv_def)
qed

lemma first_unpulled_find:
  "first_unpulled acts cnt =
     (case find (\<lambda>a. dd_value cnt a = 0) acts of
        None \<Rightarrow> (None, cnt)
      | Some a \<Rightarrow> (Some a, dd_touch cnt a))"
  by (induction acts arbitrary: cnt) (simp_all add: dd_touch_nonzero)

lemma ucb_explore_ok:
  assumes "1 \<le> steps" and "1 \<le> n"
  shows "ucb_explore cc steps n = Inr (cc * sqrt (ln (real_of_int steps) / real_of_int n))"
proof -
  have "0 \<le> ln (real_of_int steps)" using assms(1) by simp
  then have "0 \<le> ln (real_of_int steps) / real_of_int n" using assms(2) by simp
  then have "\<not> ln (real_of_int steps) / real_of_int n < 0" by linarith
  moreover have "\<not> steps \<le> 0" "n \<noteq> 0" using assms by simp_all
  ultimately show ?thesis unfolding ucb_explore_def by (simp only: if_False)
qed

lemma ucb_scores_loop_ok:
  assumes "1 \<le> steps" and "\<forall>a\<in>set acts. 1 \<le> dd_value cnt a"
  shows "\<exists>scores' cnt' qv'. ucb_scores_loop cc steps acts cnt qv scores = Inr (scores', cnt', qv')
           \<and> (scores' = [] \<longrightarrow> acts = [] \<and> scores = [])
           \<and> (\<forall>a. dd_value cnt' a = dd_value cnt a)"
  using assms(2)
proof (induction acts arbitrary: cnt qv scores)
  case Nil
  then show ?case by simp
next
  case (Cons a acts)
  have ex: "ucb_explore cc steps (dd_value cnt a)
              = Inr (cc * sqrt (ln (real_of_int steps) / real_of_int (dd_value cnt a)))"
    using Cons.prems assms(1) by (simp add: ucb_explore_ok)
  have "\<forall>x\<in>set acts. 1 \<le> dd_value (dd_touch cnt a) x" using Cons.prems by simp
  from Cons.IH [OF this] obtain scores' cnt' qv' where
    "ucb_scores_loop cc steps acts (dd_touch cnt a) (dd_touch qv a)
       (AList.update a (dd_value qv a + cc * sqrt (ln (real_of_int steps) / real_of_int (dd_value cnt a))) scores)
      = Inr (scores', cnt', qv')"
    "scores' = [] \<longrightarrow> acts = [] \<and> AList.update a (dd_value qv a + cc * sqrt (ln (real_of_int steps) / real_of_int (dd_value cnt a))) scores = []"
    "\<forall>x. dd_value cnt' x = dd_value (dd_touch cnt a) x"
    by blast
  then show ?case using ex by (simp add: Let_def)
qed

lemma ucb_phase_ok:
  assumes "1 \<le> total_steps b" and "\<forall>a\<in>set (actions b). 1 \<le> dd_value (action_counts b) a"
    and "actions b \<noteq> []"
  shows "\<exists>r. ucb_phase b g = Inr r"
proof -
  from ucb_scores_loop_ok [OF assms(1,2), of "ucb_c b" "q_values b" "[]"]
  obtain scores' cnt' qv' where
    l: "ucb_scores_loop (ucb_c b) (total_steps b) (actions b) (action_counts b) (q_values b) []
          = Inr (scores', cnt', qv')" and ne: "scores' \<noteq> []"
    using assms(3) by blast
  have m: "py_max (map snd scores') = Inr (Max (set (map snd scores')))"
    using ne by (simp add: py_max_Inr)
  have "Max (set (map snd scores')) \<in> set (map snd scores')"
    using ne by (intro Max_in) simp_all
  then have "filter (\<lambda>(a, score). score = Max (set (map snd scores'))) scores' \<noteq> []"
    by (auto simp: filter_empty_conv)
  then have "map fst (filter (\<lambda>(a, score). score = Max (set (map snd scores'))) scores') \<noteq> []"
    by simp
  from random_choice_ok [OF this] show ?thesis
    unfolding ucb_phase_def by (simp add: l m)
qed

lemma ucb_phase_no_arms: "actions b = [] \<Longrightarrow> ucb_phase b g = Inl ValueError"
  by (simp add: ucb_phase_def)

text \<open>
  Claim C5. If some arm's count is zero, \<open>select_action\<close> returns the first such arm of
  the action list and leaves the random source untouched; the scoring phase runs exactly
  when no arm's count is zero, that is (counters being non-negative in reachable states)
  when every arm has been pulled at least once.
\<close>

theorem ucb_cold_start:
  "UCBBandit_select_action b g =
     (case find (\<lambda>a. dd_value (action_counts b) a = 0) (actions b) of
        Some a \<Rightarrow> Inr (a, b\<lparr>total_steps := total_steps b + 1,
                             action_counts := dd_touch (action_counts b) a\<rparr>, g)
      | None \<Rightarrow> ucb_phase (b\<lparr>total_steps := total_steps b + 1\<rparr>) g)
   \<and> (find (\<lambda>a. dd_value (action_counts b) a = 0) (actions b) = None
        \<longrightarrow> (\<forall>a\<in>set (actions b). dd_value (action_counts b) a \<noteq> 0))
   \<and> (bandit_inv b \<and> find (\<lambda>a. dd_value (action_counts b) a = 0) (actions b) = None
        \<longrightarrow> (\<forall>a\<in>set (actions b). 1 \<le> dd_value (action_counts b) a))"
proof -
  have "1 \<le> dd_value (action_counts b) a"
    if "bandit_inv b" "find (\<lambda>a. dd_value (action_counts b) a = 0) (actions b) = None"
       "a \<in> set (actions b)" for a
  proof -
    have "0 \<le> dd_value (action_counts b) a" using that(1) by (simp add: bandit_inv_def)
    moreover have "dd_value (action_counts b) a \<noteq> 0" using that(2,3) by (simp add: find_None_iff)
    ultimately show ?thesis by simp
  qed
  then have c3: "bandit_inv b \<and> find (\<lambda>a. dd_value (action_counts b) a = 0) (actions b) = None
        \<longrightarrow> (\<forall>a\<in>set (actions b). 1 \<le> dd_value (action_counts b) a)"
    by blast
  have c1: "UCBBandit_select_action b g =
     (case find (\<lambda>a. dd_value (action_counts b) a = 0) (actions b) of
        Some a \<Rightarrow> Inr (a, b\<lparr>total_steps := total_steps b + 1,
                             action_counts := dd_touch (action_counts b) a\<rparr>, g)
      | None \<Rightarrow> ucb_phase (b\<lparr>total_steps := total_steps b + 1\<rparr>) g)"
    by (simp add: UCBBandit_select_action_def Let_def first_unpulled_find split: option.splits)
  have c2: "find (\<lambda>a. dd_value (action_counts b) a = 0) (actions b) = None
        \<longrightarrow> (\<forall>a\<in>set (actions b). dd_value (action_counts b) a \<noteq> 0)"
    by (simp add: find_None_iff)
  from c1 c2 c3 show ?thesis by (intro conjI)
qed

theorem ucb_cold_start_witness:
  "UCBBandit_select_action
      \<lparr>actions = [''strength'', ''cardio'', ''flexibility''], ucb_c = 2,
         q_values = [''strength'' \<mapsto> 1], action_counts = [''strength'' \<mapsto> 1], total_steps = 1\<rparr>
      (\<lambda>n. 0)
    = Inr (''cardio'',
       \<lparr>actions = [''strength'', ''cardio'', ''flexibility''], ucb_c = 2,
         q_values = [''strength'' \<mapsto> 1],
         action_counts = [''strength'' \<mapsto> 1, ''cardio'' \<mapsto> 0], total_steps = 2\<rparr>,
       (\<lambda>n. 0))
   \<and> find (\<lambda>a. dd_value [''strength'' \<mapsto> 1::int] a = 0) [''strength''] = None
   \<and> bandit_inv \<lparr>actions = [''strength''], ucb_c = 2,
         q_values = [''strength'' \<mapsto> 1], action_counts = [''strength'' \<mapsto> 1], total_steps = 1\<rparr>
   \<and> 1 \<le> dd_value [''strength'' \<mapsto> 1::int] ''strength''"
  using ucb_cold_start [of "\<lparr>actions = [''strength'', ''cardio'', ''flexibility''], ucb_c = 2,
         q_values = [''strength'' \<mapsto> 1], action_counts = [''strength'' \<mapsto> 1], total_steps = 1\<rparr>"
         "\<lambda>n. 0"]
    ucb_cold_start [of "\<lparr>actions = [''strength''], ucb_c = 2,
         q_values = [''strength'' \<mapsto> 1], action_counts = [''strength'' \<mapsto> 1], total_steps = 1\<rparr>"
         "\<lambda>n. 0"]
  by (simp add: dd_value_def dd_touch_def bandit_inv_def)

text \<open>
  Claim C6. In a reachable bandit state (counters non-negative), whenever \<open>select_action\<close>
  gets past the cold-start loop, the incremented \<open>total_steps\<close> is at least 1 and every
  arm's count is at least 1, so for every arm the exploration term evaluates without
  raising: neither the logarithm, nor the division, nor the square root fails. With at
  least one arm the call returns an arm; with no arm at all the only failure is \<open>max\<close>
  on the empty score dictionary.
\<close>

theorem ucb_formula_safe:
  assumes "bandit_inv b" and "first_unpulled (actions b) (action_counts b) = (None, cnt)"
  shows "1 \<le> total_steps b + 1
     \<and> (\<forall>a\<in>set (actions b). 1 \<le> dd_value cnt a
          \<and> ucb_explore (ucb_c b) (total_steps b + 1) (dd_value cnt a)
              = Inr (ucb_c b * sqrt (ln (real_of_int (total_steps b + 1))
                                       / real_of_int (dd_value cnt a))))
     \<and> (actions b \<noteq> [] \<longrightarrow> (\<exists>r. UCBBandit_select_action b g = Inr r))
     \<and> (actions b = [] \<longrightarrow> UCBBandit_select_action b g = Inl ValueError)"
proof -
  have st: "1 \<le> total_steps b + 1" and nn: "\<And>a. 0 \<le> dd_value (action_counts b) a"
    using assms(1) by (simp_all add: bandit_inv_def)
  have f: "find (\<lambda>a. dd_value (action_counts b) a = 0) (actions b) = None" and c: "cnt = action_counts b"
    using assms(2) by (simp_all add: first_unpulled_find split: option.splits)
  have pos: "\<forall>a\<in>set (actions b). 1 \<le> dd_value cnt a"
  proof
    fix a assume "a \<in> set (actions b)"
    then have "dd_value (action_counts b) a \<noteq> 0" using f by (simp add: find_None_iff)
    then show "1 \<le> dd_value cnt a" using nn [of a] c by simp
  qed
  have sel: "UCBBandit_select_action b g = ucb_phase (b\<lparr>total_steps := total_steps b + 1\<rparr>) g"
    using assms(2) c by (simp add: UCBBandit_select_action_def Let_def)
  have "actions b \<noteq> [] \<longrightarrow> (\<exists>r. UCBBandit_select_action b g = Inr r)"
    using ucb_phase_ok [of "b\<lparr>total_steps := total_steps b + 1\<rparr>" g] st pos c sel by simp
  moreover have "actions b = [] \<longrightarrow> UCBBandit_select_action b g = Inl ValueError"
    using sel by (simp add: ucb_phase_no_arms)
  ultimately show ?thesis using st pos by (simp add: ucb_explore_ok)
qed

theorem ucb_formula_safe_witness:
  "bandit_inv \<lparr>actions = [''strength''], ucb_c = 2,
         q_values = [''strength'' \<mapsto> 1], action_counts = [''strength'' \<mapsto> 1], total_steps = 1\<rparr>
   \<and> first_unpulled [''strength''] [''strength'' \<mapsto> 1] = (None, [''strength'' \<mapsto> 1])
   \<and> ucb_explore 2 2 1 = Inr (2 * sqrt (ln 2))
   \<and> (\<exists>r. UCBBandit_select_action \<lparr>actions = [''strength''], ucb_c = 2,
         q_values = [''strength'' \<mapsto> 1], action_counts = [''strength'' \<mapsto> 1], total_steps = 1\<rparr>
         (\<lambda>n. 0) = Inr r)"
proof -
  have i: "bandit_inv \<lparr>actions = [''strength''], ucb_c = 2,
         q_values = [''strength'' \<mapsto> 1], action_counts = [''strength'' \<mapsto> 1], total_steps = 1\<rparr>"
    by (simp add: bandit_inv_def dd_value_def)
  have f: "first_unpulled [''strength''] [''strength'' \<mapsto> 1] = (None, [''strength'' \<mapsto> 1])"
    by (simp add: dd_value_def dd_touch_def)
  show ?thesis
    using i f ucb_formula_safe [of "\<lparr>actions = [''strength''], ucb_c = 2,
         q_values = [''strength'' \<mapsto> 1], action_counts = [''strength'' \<mapsto> 1], total_steps = 1\<rparr>"
         "[''strength'' \<mapsto> 1]" "\<lambda>n. 0"]
    by (simp add: dd_value_def)
qed

section \<open>Properties of q\_learner.py\<close>

lemma q_update_result:
  assumes "agent_actions ag \<noteq> []"
  shows "QLearningAgent_update ag s a r s'
     = Inr (ag\<lparr>q_table := (dd_touch_all (q_table ag) (map (Pair s') (agent_actions ag)))
              ((s, a) \<mapsto> dd_value (q_table ag) (s, a)
                 + alpha ag * (r + gamma ag * Max ((\<lambda>a'. dd_value (q_table ag) (s', a')) ` set (agent_actions ag))
                               - dd_value (q_table ag) (s, a)))\<rparr>)"
proof -
  have "py_max (map (dd_value (q_table ag)) (map (Pair s') (agent_actions ag)))
          = Inr (Max ((\<lambda>a'. dd_value (q_table ag) (s', a')) ` set (agent_actions ag)))"
    using assms by (simp add: py_max_Inr image_image)
  then show ?thesis by (simp add: QLearningAgent_update_def dd_read_all_eq Let_def)
qed

lemma q_update_actions:
  "QLearningAgent_update ag s a r s' = Inr ag' \<Longrightarrow> agent_actions ag' = agent_actions ag"
  by (auto simp: QLearningAgent_update_def Let_def split: prod.splits sum.splits)

text \<open>
  Claim C7. For an agent with at least one declared action, \<open>update(s, a, r, s')\<close>
  succeeds and stores at \<open>(s, a)\<close> the value \<open>oldQ + alpha * (r + gamma * maxNextQ - oldQ)\<close>,
  where \<open>oldQ\<close> is the value read at \<open>(s, a)\<close> before (0 if absent) and \<open>maxNextQ\<close> the
  maximum over the declared actions \<open>a'\<close> of the value read at \<open>(s', a')\<close>. Every
  \<open>(s', a')\<close> is a key of the table afterwards, the keys are exactly the old ones together
  with these and \<open>(s, a)\<close>, the value read at any other key is unchanged, and so are the
  agent's parameters.
\<close>

theorem q_update:
  assumes "agent_actions ag \<noteq> []"
  shows "\<exists>ag'. QLearningAgent_update ag s a r s' = Inr ag'
     \<and> dd_value (q_table ag') (s, a)
         = dd_value (q_table ag) (s, a)
           + alpha ag * (r + gamma ag * Max ((\<lambda>a'. dd_value (q_table ag) (s', a')) ` set (agent_actions ag))
                         - dd_value (q_table ag) (s, a))
     \<and> (\<forall>a'\<in>set (agent_actions ag). (s', a') \<in> dom (q_table ag'))
     \<and> (\<forall>k. k \<noteq> (s, a) \<longrightarrow> dd_value (q_table ag') k = dd_value (q_table ag) k)
     \<and> dom (q_table ag') = dom (q_table ag) \<union> Pair s' ` set (agent_actions ag) \<union> {(s, a)}
     \<and> agent_actions ag' = agent_actions ag \<and> alpha ag' = alpha ag \<and> gamma ag' = gamma ag
     \<and> epsilon ag' = epsilon ag"
proof -
  let ?tbl = "dd_touch_all (q_table ag) (map (Pair s') (agent_actions ag))"
  let ?m = "Max ((\<lambda>a'. dd_value (q_table ag) (s', a')) ` set (agent_actions ag))"
  let ?new = "dd_value (q_table ag) (s, a) + alpha ag * (r + gamma ag * ?m - dd_value (q_table ag) (s, a))"
  have mx: "py_max (map (dd_value (q_table ag)) (map (Pair s') (agent_actions ag))) = Inr ?m"
    using assms by (simp add: py_max_Inr image_image)
  have upd: "QLearningAgent_update ag s a r s' = Inr (ag\<lparr>q_table := ?tbl((s, a) \<mapsto> ?new)\<rparr>)"
    using mx by (simp add: QLearningAgent_update_def dd_read_all_eq Let_def)
  have 1: "dd_value (?tbl((s, a) \<mapsto> ?new)) (s, a) = ?new" by (simp add: dd_value_def)
  have 2: "\<forall>a'\<in>set (agent_actions ag). (s', a') \<in> dom (?tbl((s, a) \<mapsto> ?new))" by auto
  have 3: "\<forall>k. k \<noteq> (s, a) \<longrightarrow> dd_value (?tbl((s, a) \<mapsto> ?new)) k = dd_value (q_table ag) k"
  proof (intro allI impI)
    fix k :: "'a \<times> string" assume "k \<noteq> (s, a)"
    then have "dd_value (?tbl((s, a) \<mapsto> ?new)) k = dd_value ?tbl k" by (simp add: dd_value_def)
    then show "dd_value (?tbl((s, a) \<mapsto> ?new)) k = dd_value (q_table ag) k" by simp
  qed
  have 4: "dom (?tbl((s, a) \<mapsto> ?new)) = dom (q_table ag) \<union> Pair s' ` set (agent_actions ag) \<union> {(s, a)}"
    by auto
  show ?thesis using upd 1 2 3 4 by simp
qed

theorem q_update_witness:
  "agent_actions \<lparr>agent_actions = controller_actions, alpha = 1 / 10, gamma = 9 / 10, epsilon = 0,
            q_table = [((1::nat), ''add_cardio'') \<mapsto> 1]\<rparr> \<noteq> []
   \<and> (\<exists>ag'. QLearningAgent_update
          \<lparr>agent_actions = controller_actions, alpha = 1 / 10, gamma = 9 / 10, epsilon = 0,
            q_table = [((1::nat), ''add_cardio'') \<mapsto> 1]\<rparr> 0 ''add_strength'' 2 1 = Inr ag'
         \<and> dd_value (q_table ag') (0, ''add_strength'') = 29 / 100
         \<and> (1, ''finalize'') \<in> dom (q_table ag')
         \<and> dd_value (q_table ag') (1, ''add_cardio'') = 1)"
proof -
  let ?ag = "\<lparr>agent_actions = controller_actions, alpha = 1 / 10, gamma = 9 / 10, epsilon = 0,
            q_table = [((1::nat), ''add_cardio'') \<mapsto> 1::real]\<rparr>"
  have n: "agent_actions ?ag \<noteq> []" by (simp add: controller_actions_def)
  have m: "Max ((\<lambda>a'. dd_value (q_table ?ag) (1, a')) ` set (agent_actions ?ag)) = 1"
    by (simp add: controller_actions_def dd_value_def)
  from q_update [OF n, of 0 "''add_strength''" 2 1] obtain ag' where
    "QLearningAgent_update ?ag 0 ''add_strength'' 2 1 = Inr ag'"
    "dd_value (q_table ag') (0, ''add_strength'')
         = dd_value (q_table ?ag) (0, ''add_strength'')
           + alpha ?ag * (2 + gamma ?ag * Max ((\<lambda>a'. dd_value (q_table ?ag) (1, a')) ` set (agent_actions ?ag))
                         - dd_value (q_table ?ag) (0, ''add_strength''))"
    "\<forall>a'\<in>set (agent_actions ?ag). (1, a') \<in> dom (q_table ag')"
    "\<forall>k. k \<noteq> (0, ''add_strength'') \<longrightarrow> dd_value (q_table ag') k = dd_value (q_table ?ag) k"
    by blast
  then have "QLearningAgent_update ?ag 0 ''add_strength'' 2 1 = Inr ag'
         \<and> dd_value (q_table ag') (0, ''add_strength'') = 29 / 100
         \<and> (1, ''finalize'') \<in> dom (q_table ag')
         \<and> dd_value (q_table ag') (1, ''add_cardio'') = 1"
    unfolding m by (simp add: controller_actions_def dd_value_def)
  then show ?thesis using n by blast
qed

lemma select_action_nonempty:
  "QLearningAgent_select_action ag st g = Inr res \<Longrightarrow> agent_actions ag \<noteq> []"
  by (auto simp: QLearningAgent_select_action_def random_random_def random_choice_def
      split: if_splits)

lemma select_action_InrD:
  assumes "valid_rng g" and "QLearningAgent_select_action ag st g = Inr (a, ag', g')"
  shows "a \<in> set (agent_actions ag) \<and> agent_actions ag' = agent_actions ag \<and> valid_rng g'"
proof (cases "g 0 < epsilon ag")
  case True
  then have ch: "random_choice (agent_actions ag) (rng_tail g) = Inr (a, g')" and "ag' = ag"
    using assms(2)
    by (auto simp: QLearningAgent_select_action_def random_random_def split: sum.splits)
  with random_choice_InrD [OF valid_rng_tail [OF assms(1)] ch] show ?thesis by simp
next
  case False
  then obtain best where
    ch: "random_choice (filter best (agent_actions ag)) (rng_tail g) = Inr (a, g')"
    and ag': "agent_actions ag' = agent_actions ag"
    using assms(2)
    by (auto simp: QLearningAgent_select_action_def random_random_def dd_read_all_eq
        split: sum.splits)
  from random_choice_InrD [OF valid_rng_tail [OF assms(1)] ch] ag'
  show ?thesis by simp
qed

lemma select_action_total:
  assumes "valid_rng g" and "agent_actions ag \<noteq> []"
  shows "\<exists>res. QLearningAgent_select_action ag st g = Inr res"
proof (cases "g 0 < epsilon ag")
  case True
  then show ?thesis using assms(2)
    by (simp add: QLearningAgent_select_action_def random_random_def random_choice_def)
next
  case False
  let ?f = "\<lambda>a'. dd_value (q_table ag) (st, a')"
  have mx: "py_max (map (dd_value (q_table ag)) (map (Pair st) (agent_actions ag)))
              = Inr (Max (?f ` set (agent_actions ag)))"
    using assms(2) by (simp add: py_max_Inr image_image)
  have "filter (\<lambda>a'. ?f a' = Max (?f ` set (agent_actions ag))) (agent_actions ag) \<noteq> []"
    using assms(2) by (rule max_filter_nonempty)
  then show ?thesis using False mx
    by (simp add: QLearningAgent_select_action_def random_random_def dd_read_all_eq
        random_choice_def)
qed

lemma greedy_result:
  assumes "epsilon ag = 0" and "valid_rng g" and "agent_actions ag \<noteq> []"
  shows "QLearningAgent_select_action ag st g
     = Inr (filter (\<lambda>a'. dd_value (q_table ag) (st, a')
                          = Max ((\<lambda>a'. dd_value (q_table ag) (st, a')) ` set (agent_actions ag)))
                   (agent_actions ag)
              ! choice_index (g 1)
                  (length (filter (\<lambda>a'. dd_value (q_table ag) (st, a')
                          = Max ((\<lambda>a'. dd_value (q_table ag) (st, a')) ` set (agent_actions ag)))
                   (agent_actions ag))),
            ag\<lparr>q_table := dd_touch_all (q_table ag) (map (Pair st) (agent_actions ag))\<rparr>,
            rng_tail (rng_tail g))"
proof -
  let ?f = "\<lambda>a'. dd_value (q_table ag) (st, a')"
  let ?m = "Max (?f ` set (agent_actions ag))"
  let ?best = "filter (\<lambda>a'. ?f a' = ?m) (agent_actions ag)"
  have u: "\<not> g 0 < epsilon ag" using assms(1,2) by (simp add: valid_rng_def not_less)
  have ne: "?best \<noteq> []" using assms(3) by (rule max_filter_nonempty)
  have ch: "random_choice ?best (rng_tail g)
              = Inr (?best ! choice_index (g 1) (length ?best), rng_tail (rng_tail g))"
    using random_choice_ok [OF ne, of "rng_tail g"] by (simp add: rng_tail_def)
  have mx: "py_max (map (dd_value (q_table ag)) (map (Pair st) (agent_actions ag))) = Inr ?m"
    using assms(3) by (simp add: py_max_Inr image_image)
  show ?thesis
    using u mx ch by (simp add: QLearningAgent_select_action_def random_random_def dd_read_all_eq)
qed

lemma choice_index_mid:
  assumes "k < n"
  shows "choice_index (real k / real n) n = k"
proof -
  have "0 < n" using assms by simp
  then have "real k / real n * real n = real k" by simp
  then show ?thesis by (simp add: choice_index_def)
qed

lemma constant_draw_valid:
  assumes "k < n"
  shows "valid_rng (\<lambda>i. real k / real n)"
proof -
  have "0 < real n" "real k < real n" using assms by simp_all
  then show ?thesis by (simp add: valid_rng_def field_simps)
qed

text \<open>
  Claim C8. With \<open>epsilon = 0\<close>, a random source whose draws lie in \<open>[0, 1)\<close> and a
  non-empty action list, \<open>select_action\<close> does not take the exploration branch (the draw is
  not below 0) and returns a declared action whose Q-value in the given state is the maximum
  over the declared actions. The tie is broken by the next draw \<open>u\<close>: with \<open>n\<close> maximisers,
  listed in declaration order, the one returned is the \<open>k\<close>-th exactly for \<open>u\<close> in
  \<open>[k/n, (k+1)/n)\<close>, so each position has an interval of the same width \<open>1/n\<close> (uniform
  for a uniform draw), and every maximiser is returned for some sequence of draws.
\<close>

theorem greedy_selection:
  assumes "epsilon ag = 0" and "valid_rng g" and "agent_actions ag \<noteq> []"
  shows "\<not> fst (random_random g) < epsilon ag
     \<and> (\<exists>a k. QLearningAgent_select_action ag st g
               = Inr (a, ag\<lparr>q_table := dd_touch_all (q_table ag) (map (Pair st) (agent_actions ag))\<rparr>,
                      rng_tail (rng_tail g))
          \<and> a \<in> set (agent_actions ag)
          \<and> dd_value (q_table ag) (st, a)
              = Max ((\<lambda>a'. dd_value (q_table ag) (st, a')) ` set (agent_actions ag))
          \<and> k < length (filter (\<lambda>a'. dd_value (q_table ag) (st, a')
                          = Max ((\<lambda>a'. dd_value (q_table ag) (st, a')) ` set (agent_actions ag)))
                   (agent_actions ag))
          \<and> a = filter (\<lambda>a'. dd_value (q_table ag) (st, a')
                          = Max ((\<lambda>a'. dd_value (q_table ag) (st, a')) ` set (agent_actions ag)))
                   (agent_actions ag) ! k
          \<and> real k / real (length (filter (\<lambda>a'. dd_value (q_table ag) (st, a')
                          = Max ((\<lambda>a'. dd_value (q_table ag) (st, a')) ` set (agent_actions ag)))
                   (agent_actions ag))) \<le> g 1
          \<and> g 1 < (real k + 1) / real (length (filter (\<lambda>a'. dd_value (q_table ag) (st, a')
                          = Max ((\<lambda>a'. dd_value (q_table ag) (st, a')) ` set (agent_actions ag)))
                   (agent_actions ag))))
     \<and> (\<forall>m\<in>set (filter (\<lambda>a'. dd_value (q_table ag) (st, a')
                          = Max ((\<lambda>a'. dd_value (q_table ag) (st, a')) ` set (agent_actions ag)))
                   (agent_actions ag)).
           \<exists>g'. valid_rng g' \<and> (\<exists>ag' g''. QLearningAgent_select_action ag st g' = Inr (m, ag', g'')))"
proof -
  let ?f = "\<lambda>a'. dd_value (q_table ag) (st, a')"
  let ?m = "Max (?f ` set (agent_actions ag))"
  let ?best = "filter (\<lambda>a'. ?f a' = ?m) (agent_actions ag)"
  let ?n = "length ?best"
  let ?k = "choice_index (g 1) ?n"
  have u: "\<not> g 0 < epsilon ag" using assms(1,2) by (simp add: valid_rng_def not_less)
  have ne: "?best \<noteq> []" using assms(3) by (rule max_filter_nonempty)
  then have n: "0 < ?n" by simp
  have g1: "0 \<le> g 1" "g 1 < 1" using assms(2) by (simp_all add: valid_rng_def)
  have k: "?k < ?n" using g1 n by (rule choice_index_less)
  have iv: "real ?k / real ?n \<le> g 1 \<and> g 1 < (real ?k + 1) / real ?n"
    using choice_index_interval [OF g1(1) n, of ?k] by simp
  have mem: "?best ! ?k \<in> set ?best" using k by (rule nth_mem)
  then have a: "?best ! ?k \<in> set (agent_actions ag)" "?f (?best ! ?k) = ?m" by simp_all
  have part2: "\<exists>a k. QLearningAgent_select_action ag st g
               = Inr (a, ag\<lparr>q_table := dd_touch_all (q_table ag) (map (Pair st) (agent_actions ag))\<rparr>,
                      rng_tail (rng_tail g))
          \<and> a \<in> set (agent_actions ag) \<and> ?f a = ?m
          \<and> k < ?n \<and> a = ?best ! k \<and> real k / real ?n \<le> g 1 \<and> g 1 < (real k + 1) / real ?n"
    using greedy_result [OF assms, of st] a k iv by blast
  have part3: "\<forall>m\<in>set ?best.
           \<exists>g'. valid_rng g' \<and> (\<exists>ag' g''. QLearningAgent_select_action ag st g' = Inr (m, ag', g''))"
  proof
    fix m assume "m \<in> set ?best"
    then obtain j where j: "j < ?n" "?best ! j = m" unfolding in_set_conv_nth by blast
    let ?g = "\<lambda>i::nat. real j / real ?n"
    have v: "valid_rng ?g" using j(1) by (rule constant_draw_valid)
    have "choice_index (?g 1) ?n = j" using j(1) by (rule choice_index_mid)
    with greedy_result [OF assms(1) v assms(3), of st] j(2)
    have "\<exists>ag' g''. QLearningAgent_select_action ag st ?g = Inr (m, ag', g'')" by simp
    with v show "\<exists>g'. valid_rng g' \<and> (\<exists>ag' g''. QLearningAgent_select_action ag st g' = Inr (m, ag', g''))"
      by blast
  qed
  from u part2 part3 show ?thesis by (simp add: random_random_def)
qed

theorem greedy_selection_witness:
  "epsilon (QLearningAgent_init controller_actions (1 / 10) (9 / 10) 0 :: state q_agent) = 0
   \<and> valid_rng (\<lambda>n. 1 / 2)
   \<and> agent_actions (QLearningAgent_init controller_actions (1 / 10) (9 / 10) 0 :: state q_agent) \<noteq> []
   \<and> (\<exists>ag' g'. QLearningAgent_select_action
          (QLearningAgent_init controller_actions (1 / 10) (9 / 10) 0 :: state q_agent)
          (0, ''low'', ''plenty'', ''beginner'') (\<lambda>n. 1 / 2) = Inr (''add_flexibility'', ag', g'))
   \<and> (\<exists>g'. valid_rng g' \<and> (\<exists>ag' g''. QLearningAgent_select_action
          (QLearningAgent_init controller_actions (1 / 10) (9 / 10) 0 :: state q_agent)
          (0, ''low'', ''plenty'', ''beginner'') g' = Inr (''finalize'', ag', g'')))"
proof -
  let ?ag = "QLearningAgent_init controller_actions (1 / 10) (9 / 10) 0 :: state q_agent"
  let ?st = "(0, ''low'', ''plenty'', ''beginner'') :: state"
  have e: "epsilon ?ag = 0" by (simp add: QLearningAgent_init_def)
  have v: "valid_rng (\<lambda>n. 1 / 2)" by (simp add: valid_rng_def)
  have n: "agent_actions ?ag \<noteq> []" by (simp add: QLearningAgent_init_def controller_actions_def)
  have best: "filter (\<lambda>a'. dd_value (q_table ?ag) (?st, a')
                 = Max ((\<lambda>a'. dd_value (q_table ?ag) (?st, a')) ` set (agent_actions ?ag)))
                (agent_actions ?ag) = controller_actions"
    by (simp add: QLearningAgent_init_def controller_actions_def)
  from greedy_selection [OF e v n, of ?st] have
    tie: "\<exists>a k. QLearningAgent_select_action ?ag ?st (\<lambda>n. 1 / 2)
               = Inr (a, ?ag\<lparr>q_table := dd_touch_all (q_table ?ag) (map (Pair ?st) (agent_actions ?ag))\<rparr>,
                      rng_tail (rng_tail (\<lambda>n. 1 / 2)))
          \<and> k < length controller_actions \<and> a = controller_actions ! k
          \<and> real k / real (length controller_actions) \<le> 1 / 2
          \<and> 1 / 2 < (real k + 1) / real (length controller_actions)"
    and every: "\<forall>m\<in>set controller_actions.
           \<exists>g'. valid_rng g' \<and> (\<exists>ag' g''. QLearningAgent_select_action ?ag ?st g' = Inr (m, ag', g''))"
    unfolding best by blast+
  from tie obtain a k ag' g' where sel: "QLearningAgent_select_action ?ag ?st (\<lambda>n. 1 / 2) = Inr (a, ag', g')"
    and a: "a = controller_actions ! k"
    and lo: "real k / real (length controller_actions) \<le> 1 / 2"
    and hi: "1 / 2 < (real k + 1) / real (length controller_actions)"
    by blast
  have "real k \<le> 2" "1 < real k" using lo hi by (simp_all add: controller_actions_def)
  then have "k = 2" by simp
  then have "a = ''add_flexibility''" using a by (simp add: controller_actions_def)
  then have first: "\<exists>ag' g'. QLearningAgent_select_action ?ag ?st (\<lambda>n. 1 / 2)
                      = Inr (''add_flexibility'', ag', g')"
    using sel by blast
  have "''finalize'' \<in> set controller_actions" by (simp add: controller_actions_def)
  with every have second: "\<exists>g'. valid_rng g'
      \<and> (\<exists>ag' g''. QLearningAgent_select_action ?ag ?st g' = Inr (''finalize'', ag', g''))"
    by blast
  from e v n first second show ?thesis by (intro conjI)
qed

section \<open>Properties of fitness\_agents.py\<close>

lemma step_action_InrD:
  assumes "step_action sc rf action ep = Inr (r, ep1)"
  shows "ep_total_exercises ep \<le> ep_total_exercises ep1"
    and "ep_total_exercises ep1 \<le> ep_total_exercises ep + 1"
    and "int (length (ep_exercises ep1)) - ep_total_exercises ep1
           = int (length (ep_exercises ep)) - ep_total_exercises ep"
    and "action \<in> set controller_actions
           \<Longrightarrow> ep_done ep1 \<or> ep_total_exercises ep1 = ep_total_exercises ep + 1"
    and "ep_q_agent ep1 = ep_q_agent ep" and "ep_rng ep1 = ep_rng ep"
  using assms
  by (auto simp: step_action_def map_action_to_category_def controller_actions_def Let_def
      split: if_splits sum.splits option.splits)

lemma step_action_bandit:
  assumes "bandit_inv (ep_bandit ep)"
  shows "\<exists>r ep1. step_action sc rf action ep = Inr (r, ep1) \<and> bandit_inv (ep_bandit ep1)"
proof -
  consider (fin) "action = ''finalize''"
    | (none) "action \<noteq> ''finalize''" "map_action_to_category action = None"
    | (empty) "action \<noteq> ''finalize''" "map_action_to_category action = Some []"
    | (add) cat where "action \<noteq> ''finalize''" "map_action_to_category action = Some cat"
        "cat \<noteq> []"
    by (cases "map_action_to_category action") auto
  then show ?thesis
  proof cases
    case fin
    then show ?thesis using assms by (simp add: step_action_def)
  next
    case none
    then show ?thesis using assms by (simp add: step_action_def)
  next
    case empty
    then show ?thesis using assms by (simp add: step_action_def)
  next
    case add
    from bandit_inv_update [OF assms, of cat "rf sc cat"] obtain b' where
      "UCBBandit_update (ep_bandit ep) cat (rf sc cat) = Inr b'" "bandit_inv b'"
      by blast
    then show ?thesis using add by (simp add: step_action_def Let_def)
  qed
qed

lemma episode_step_InrD:
  assumes "episode_step sc rf ep = Inr (r, ep')"
  obtains action ag1 g1 ep1 ag2 where
    "QLearningAgent_select_action (ep_q_agent ep) (ep_state ep) (ep_rng ep) = Inr (action, ag1, g1)"
    "step_action sc rf action ep = Inr (r, ep1)"
    "QLearningAgent_update ag1 (ep_state ep) action r
       (get_state (ep_exercises ep1) (ep_exercise_rewards ep1) sc) = Inr ag2"
    "ep' = ep1\<lparr>ep_total_reward := ep_total_reward ep1 + r,
               ep_state := get_state (ep_exercises ep1) (ep_exercise_rewards ep1) sc,
               ep_q_agent := ag2, ep_rng := g1\<rparr>"
  using assms by (auto simp: episode_step_def Let_def split: sum.splits prod.splits)

lemma episode_step_counts:
  assumes "episode_step sc rf ep = Inr (r, ep')"
  shows "ep_total_exercises ep \<le> ep_total_exercises ep'"
    and "ep_total_exercises ep' \<le> ep_total_exercises ep + 1"
    and "int (length (ep_exercises ep')) - ep_total_exercises ep'
           = int (length (ep_exercises ep)) - ep_total_exercises ep"
  using assms by (auto elim!: episode_step_InrD dest: step_action_InrD(1,2,3))

lemma episode_step_progress:
  assumes "episode_step sc rf ep = Inr (r, ep')"
    and "valid_rng (ep_rng ep)"
    and "set (agent_actions (ep_q_agent ep)) \<subseteq> set controller_actions"
  shows "ep_done ep' \<or> ep_total_exercises ep' = ep_total_exercises ep + 1"
    and "valid_rng (ep_rng ep')"
    and "agent_actions (ep_q_agent ep') = agent_actions (ep_q_agent ep)"
proof -
  from assms(1) obtain action ag1 g1 ep1 ag2 where
    sel: "QLearningAgent_select_action (ep_q_agent ep) (ep_state ep) (ep_rng ep) = Inr (action, ag1, g1)"
    and act: "step_action sc rf action ep = Inr (r, ep1)"
    and upd: "QLearningAgent_update ag1 (ep_state ep) action r
       (get_state (ep_exercises ep1) (ep_exercise_rewards ep1) sc) = Inr ag2"
    and ep': "ep' = ep1\<lparr>ep_total_reward := ep_total_reward ep1 + r,
               ep_state := get_state (ep_exercises ep1) (ep_exercise_rewards ep1) sc,
               ep_q_agent := ag2, ep_rng := g1\<rparr>"
    by (rule episode_step_InrD)
  from select_action_InrD [OF assms(2) sel]
  have a: "action \<in> set (agent_actions (ep_q_agent ep))"
    and ag1: "agent_actions ag1 = agent_actions (ep_q_agent ep)" and g1: "valid_rng g1"
    by simp_all
  from a assms(3) have "action \<in> set controller_actions" by blast
  from step_action_InrD(4) [OF act this]
  show "ep_done ep' \<or> ep_total_exercises ep' = ep_total_exercises ep + 1" by (simp add: ep')
  show "valid_rng (ep_rng ep')" using g1 by (simp add: ep')
  show "agent_actions (ep_q_agent ep') = agent_actions (ep_q_agent ep)"
    using q_update_actions [OF upd] ag1 by (simp add: ep')
qed

lemma episode_step_total:
  assumes "valid_rng (ep_rng ep)" and "agent_actions (ep_q_agent ep) \<noteq> []"
    and "bandit_inv (ep_bandit ep)"
  shows "\<exists>r ep'. episode_step sc rf ep = Inr (r, ep') \<and> bandit_inv (ep_bandit ep')"
proof -
  from select_action_total [OF assms(1,2)] obtain action ag1 g1 where
    sel: "QLearningAgent_select_action (ep_q_agent ep) (ep_state ep) (ep_rng ep) = Inr (action, ag1, g1)"
    by (metis prod_cases3)
  from select_action_InrD [OF assms(1) sel] assms(2) have ne: "agent_actions ag1 \<noteq> []" by simp
  from step_action_bandit [OF assms(3)] obtain r ep1 where
    act: "step_action sc rf action ep = Inr (r, ep1)" and b: "bandit_inv (ep_bandit ep1)"
    by blast
  show ?thesis
    using sel act b q_update_result [OF ne]
    by (simp add: episode_step_def Let_def)
qed

lemma run_loop_done: "ep_done ep \<Longrightarrow> run_loop fuel sc rf ep = Some (Inr ep)"
  by (cases fuel) simp_all

lemma run_loop_count_inv:
  assumes "run_loop fuel sc rf ep = Some (Inr ep')"
  shows "int (length (ep_exercises ep')) - ep_total_exercises ep'
           = int (length (ep_exercises ep)) - ep_total_exercises ep"
  using assms
proof (induction fuel arbitrary: ep)
  case 0
  then show ?case by (simp split: if_splits)
next
  case (Suc fuel)
  show ?case
  proof (cases "\<not> ep_done ep \<and> ep_total_exercises ep < max_exercises")
    case False
    then show ?thesis using Suc.prems by auto
  next
    case True
    then obtain r ep1 where st: "episode_step sc rf ep = Inr (r, ep1)"
      and rest: "run_loop fuel sc rf ep1 = Some (Inr ep')"
      using Suc.prems(1) by (auto split: sum.splits)
    from episode_step_counts(3) [OF st] Suc.IH [OF rest] show ?thesis by simp
  qed
qed

lemma run_loop_bound:
  assumes "run_loop fuel sc rf ep = Some (Inr ep')"
    and "0 \<le> ep_total_exercises ep" and "ep_total_exercises ep \<le> max_exercises"
  shows "0 \<le> ep_total_exercises ep' \<and> ep_total_exercises ep' \<le> max_exercises"
  using assms
proof (induction fuel arbitrary: ep)
  case 0
  then show ?case by (simp split: if_splits)
next
  case (Suc fuel)
  show ?case
  proof (cases "\<not> ep_done ep \<and> ep_total_exercises ep < max_exercises")
    case False
    then show ?thesis using Suc.prems by auto
  next
    case True
    then obtain r ep1 where st: "episode_step sc rf ep = Inr (r, ep1)"
      and rest: "run_loop fuel sc rf ep1 = Some (Inr ep')"
      using Suc.prems(1) by (auto split: sum.splits)
    from episode_step_counts(1,2) [OF st] True Suc.prems(2)
    have "0 \<le> ep_total_exercises ep1" "ep_total_exercises ep1 \<le> max_exercises" by simp_all
    with Suc.IH [OF rest] show ?thesis by simp
  qed
qed

lemma run_loop_terminates:
  assumes "valid_rng (ep_rng ep)"
    and "set (agent_actions (ep_q_agent ep)) \<subseteq> set controller_actions"
    and "(if ep_done ep then 0 else max_exercises - ep_total_exercises ep) \<le> int fuel"
  shows "\<exists>res. run_loop fuel sc rf ep = Some res
           \<and> (agent_actions (ep_q_agent ep) \<noteq> [] \<and> bandit_inv (ep_bandit ep)
                \<longrightarrow> (\<exists>ep'. res = Inr ep'))"
  using assms
proof (induction fuel arbitrary: ep)
  case 0
  then show ?case by (auto split: if_splits)
next
  case (Suc fuel)
  show ?case
  proof (cases "\<not> ep_done ep \<and> ep_total_exercises ep < max_exercises")
    case False
    then show ?thesis by auto
  next
    case True
    show ?thesis
    proof (cases "episode_step sc rf ep")
      case (Inl e)
      have "\<not> (agent_actions (ep_q_agent ep) \<noteq> [] \<and> bandit_inv (ep_bandit ep))"
        using episode_step_total [OF Suc.prems(1), of sc rf] Inl by auto
      then show ?thesis using True Inl by auto
    next
      case (Inr p)
      obtain r ep1 where p: "p = (r, ep1)" by (cases p)
      have st: "episode_step sc rf ep = Inr (r, ep1)" using Inr p by simp
      from episode_step_progress [OF st Suc.prems(1,2)]
      have pr: "ep_done ep1 \<or> ep_total_exercises ep1 = ep_total_exercises ep + 1"
        and v: "valid_rng (ep_rng ep1)"
        and a: "agent_actions (ep_q_agent ep1) = agent_actions (ep_q_agent ep)"
        by simp_all
      have m: "(if ep_done ep1 then 0 else max_exercises - ep_total_exercises ep1) \<le> int fuel"
        using pr True Suc.prems(3) by auto
      have s: "set (agent_actions (ep_q_agent ep1)) \<subseteq> set controller_actions"
        using a Suc.prems(2) by simp
      from Suc.IH [OF v s m] obtain res where
        res: "run_loop fuel sc rf ep1 = Some res"
          "agent_actions (ep_q_agent ep1) \<noteq> [] \<and> bandit_inv (ep_bandit ep1)
             \<longrightarrow> (\<exists>ep'. res = Inr ep')"
        by blast
      have "bandit_inv (ep_bandit ep1)"
        if "agent_actions (ep_q_agent ep) \<noteq> []" "bandit_inv (ep_bandit ep)"
        using episode_step_total [OF Suc.prems(1) that, of sc rf] st by simp
      then show ?thesis using True st res a by auto
    qed
  qed
qed

lemma main_select_finalize:
  "QLearningAgent_select_action main_q_agent st (\<lambda>n. 3 / 4)
     = Inr (''finalize'',
            main_q_agent\<lparr>q_table := dd_touch_all Map.empty (map (Pair st) controller_actions)\<rparr>,
            (\<lambda>n. 3 / 4))"
  by (simp add: QLearningAgent_select_action_def main_q_agent_def QLearningAgent_init_def
      random_random_def rng_tail_def dd_read_all_eq controller_actions_def
      random_choice_def choice_index_def)

lemma loop_after_run_loop:
  assumes "loop_after n sc rf ep0 = Some ep"
  shows "run_loop (n + fuel) sc rf ep0 = run_loop fuel sc rf ep"
  using assms
proof (induction n arbitrary: ep0)
  case 0
  then show ?case by simp
next
  case (Suc n)
  from Suc.prems obtain r ep1 where c: "\<not> ep_done ep0 \<and> ep_total_exercises ep0 < max_exercises"
    and st: "episode_step sc rf ep0 = Inr (r, ep1)" and rest: "loop_after n sc rf ep1 = Some ep"
    by (auto split: if_splits sum.splits)
  from Suc.IH [OF rest] c st show ?case by simp
qed

lemma loop_after_count_inv:
  assumes "loop_after n sc rf ep0 = Some ep"
  shows "int (length (ep_exercises ep)) - ep_total_exercises ep
           = int (length (ep_exercises ep0)) - ep_total_exercises ep0"
  using assms
proof (induction n arbitrary: ep0)
  case 0
  then show ?case by simp
next
  case (Suc n)
  from Suc.prems obtain r ep1 where
    st: "episode_step sc rf ep0 = Inr (r, ep1)" and rest: "loop_after n sc rf ep1 = Some ep"
    by (auto split: if_splits sum.splits)
  from Suc.IH [OF rest] episode_step_counts(3) [OF st] show ?case by simp
qed

lemma loop_after_initial_count:
  assumes "loop_after n sc rf (initial_episode b ag g sc) = Some ep"
  shows "ep_total_exercises ep = int (length (ep_exercises ep))"
  using loop_after_count_inv [OF assms] by (simp add: initial_episode_def)

lemma finalize_iteration_any_state:
  assumes "QLearningAgent_select_action (ep_q_agent ep) (ep_state ep) (ep_rng ep)
             = Inr (''finalize'', ag1, g1)"
  shows "\<exists>ep'. episode_step sc rf ep
                  = Inr (if ep_exercises ep = [] then - 1
                         else compute_workout_quality (ep_exercises ep) sc, ep')
     \<and> ep_done ep'
     \<and> ep_exercises ep' = ep_exercises ep
     \<and> ep_exercise_rewards ep' = ep_exercise_rewards ep
     \<and> ep_bandit ep' = ep_bandit ep
     \<and> ep_total_exercises ep' = ep_total_exercises ep
     \<and> ep_total_reward ep'
         = ep_total_reward ep + (if ep_exercises ep = [] then - 1
                                 else compute_workout_quality (ep_exercises ep) sc)
     \<and> ep_rng ep' = g1
     \<and> (\<not> ep_done ep \<and> ep_total_exercises ep < max_exercises
          \<longrightarrow> run_loop (Suc fuel) sc rf ep = Some (Inr ep'))"
proof -
  let ?r = "if ep_exercises ep = [] then - 1 else compute_workout_quality (ep_exercises ep) sc"
  let ?ep1 = "ep\<lparr>ep_done := True\<rparr>"
  let ?next = "get_state (ep_exercises ep) (ep_exercise_rewards ep) sc"
  have act: "step_action sc rf ''finalize'' ep = Inr (?r, ?ep1)"
    by (simp add: step_action_def)
  have "agent_actions (ep_q_agent ep) \<noteq> []" using assms by (rule select_action_nonempty)
  moreover have "agent_actions ag1 = agent_actions (ep_q_agent ep)"
    using assms
    by (auto simp: QLearningAgent_select_action_def random_random_def dd_read_all_eq
        split: if_splits sum.splits)
  ultimately have "agent_actions ag1 \<noteq> []" by simp
  from q_update_result [OF this, of "ep_state ep" "''finalize''" ?r ?next]
  obtain ag2 where upd: "QLearningAgent_update ag1 (ep_state ep) ''finalize'' ?r ?next = Inr ag2"
    by blast
  let ?ep' = "?ep1\<lparr>ep_total_reward := ep_total_reward ?ep1 + ?r, ep_state := ?next,
                   ep_q_agent := ag2, ep_rng := g1\<rparr>"
  have st: "episode_step sc rf ep = Inr (?r, ?ep')"
    using assms act upd by (simp add: episode_step_def Let_def)
  have d: "ep_done ?ep'" by simp
  have "\<not> ep_done ep \<and> ep_total_exercises ep < max_exercises
          \<longrightarrow> run_loop (Suc fuel) sc rf ep = Some (Inr ?ep')"
    using st run_loop_done [OF d, of fuel sc rf] by simp
  then show ?thesis using st by (intro exI [of _ ?ep']) simp
qed

text \<open>
  Claim C9. Let \<open>ep\<close> be the locals of \<open>run_episode\<close> at the head of an iteration (after
  any number \<open>n\<close> of completed iterations) in which \<open>select_action\<close> returns \<open>finalize\<close>.
  The iteration completes without error; its step reward is \<open>-1.0\<close> when the exercise list
  is empty and \<open>compute_workout_quality(exercises, scenario)\<close> otherwise; the exercise
  list, the reward list, the exercise count and the bandit are unchanged; \<open>done\<close> is set;
  the loop stops there and \<open>run_episode\<close> returns the accumulated reward plus the step
  reward together with the length of the exercise list, which is 0 when the list is empty.
\<close>

theorem finalize_step:
  assumes reach: "loop_after n sc rf (initial_episode b ag g sc) = Some ep"
    and running: "\<not> ep_done ep \<and> ep_total_exercises ep < max_exercises"
    and sel: "QLearningAgent_select_action (ep_q_agent ep) (ep_state ep) (ep_rng ep)
             = Inr (''finalize'', ag1, g1)"
  shows "\<exists>ep'. episode_step sc rf ep
                  = Inr (if ep_exercises ep = [] then - 1
                         else compute_workout_quality (ep_exercises ep) sc, ep')
     \<and> ep_done ep'
     \<and> ep_exercises ep' = ep_exercises ep
     \<and> ep_exercise_rewards ep' = ep_exercise_rewards ep
     \<and> ep_bandit ep' = ep_bandit ep
     \<and> ep_total_exercises ep' = ep_total_exercises ep
     \<and> ep_total_reward ep'
         = ep_total_reward ep + (if ep_exercises ep = [] then - 1
                                 else compute_workout_quality (ep_exercises ep) sc)
     \<and> run_loop (Suc fuel) sc rf ep = Some (Inr ep')
     \<and> run_episode (n + Suc fuel) b ag g sc rf
         = Some (Inr ((ep_total_reward ep
                        + (if ep_exercises ep = [] then - 1
                           else compute_workout_quality (ep_exercises ep) sc),
                       int (length (ep_exercises ep))),
                      ep_bandit ep, ep_q_agent ep', g1))
     \<and> (ep_exercises ep = []
          \<longrightarrow> run_episode (n + Suc fuel) b ag g sc rf
                = Some (Inr ((ep_total_reward ep - 1, 0), ep_bandit ep, ep_q_agent ep', g1)))"
proof -
  let ?r = "if ep_exercises ep = [] then - 1 else compute_workout_quality (ep_exercises ep) sc"
  from finalize_iteration_any_state [OF sel, of sc rf fuel] running obtain ep' where
    st: "episode_step sc rf ep = Inr (?r, ep')"
    and f: "ep_done ep'" "ep_exercises ep' = ep_exercises ep"
      "ep_exercise_rewards ep' = ep_exercise_rewards ep" "ep_bandit ep' = ep_bandit ep"
      "ep_total_exercises ep' = ep_total_exercises ep"
      "ep_total_reward ep' = ep_total_reward ep + ?r" "ep_rng ep' = g1"
    and l: "run_loop (Suc fuel) sc rf ep = Some (Inr ep')"
    by blast
  have cnt: "ep_total_exercises ep = int (length (ep_exercises ep))"
    using reach by (rule loop_after_initial_count)
  have "run_loop (n + Suc fuel) sc rf (initial_episode b ag g sc) = Some (Inr ep')"
    using loop_after_run_loop [OF reach, of "Suc fuel"] l by simp
  then have re: "run_episode (n + Suc fuel) b ag g sc rf
         = Some (Inr ((ep_total_reward ep + ?r, int (length (ep_exercises ep))),
                      ep_bandit ep, ep_q_agent ep', g1))"
    using f cnt by (simp add: run_episode_def)
  then have "ep_exercises ep = []
          \<longrightarrow> run_episode (n + Suc fuel) b ag g sc rf
                = Some (Inr ((ep_total_reward ep - 1, 0), ep_bandit ep, ep_q_agent ep', g1))"
    by simp
  with st f l re show ?thesis by (intro exI [of _ ep']) simp
qed

theorem finalize_step_witness:
  "loop_after 0 example_scenario compute_category_reward
      (initial_episode main_bandit main_q_agent (\<lambda>n. 3 / 4) example_scenario)
     = Some (initial_episode main_bandit main_q_agent (\<lambda>n. 3 / 4) example_scenario)
   \<and> (\<exists>ep'. episode_step example_scenario compute_category_reward
            (initial_episode main_bandit main_q_agent (\<lambda>n. 3 / 4) example_scenario)
          = Inr (- 1, ep')
        \<and> ep_done ep' \<and> ep_exercises ep' = [] \<and> ep_bandit ep' = main_bandit
        \<and> ep_total_exercises ep' = 0 \<and> ep_total_reward ep' = - 1
        \<and> run_episode (Suc 0) main_bandit main_q_agent (\<lambda>n. 3 / 4) example_scenario
             compute_category_reward
           = Some (Inr ((- 1, 0), main_bandit, ep_q_agent ep', (\<lambda>n. 3 / 4))))"
proof -
  let ?ep = "initial_episode main_bandit main_q_agent (\<lambda>n. 3 / 4) example_scenario"
  have reach: "loop_after 0 example_scenario compute_category_reward ?ep = Some ?ep" by simp
  have e: "ep_exercises ?ep = []" "ep_bandit ?ep = main_bandit" "ep_total_exercises ?ep = 0"
    "ep_total_reward ?ep = 0" "\<not> ep_done ?ep"
    by (simp_all add: initial_episode_def)
  have c: "\<not> ep_done ?ep \<and> ep_total_exercises ?ep < max_exercises"
    by (simp add: e max_exercises_def)
  have sel: "QLearningAgent_select_action (ep_q_agent ?ep) (ep_state ?ep) (ep_rng ?ep)
     = Inr (''finalize'',
            main_q_agent\<lparr>q_table := dd_touch_all Map.empty
                                        (map (Pair (ep_state ?ep)) controller_actions)\<rparr>,
            (\<lambda>n. 3 / 4))"
    using main_select_finalize [of "ep_state ?ep"] by (simp add: initial_episode_def)
  from finalize_step [OF reach c sel, of 0] obtain ep' where
    "episode_step example_scenario compute_category_reward ?ep
       = Inr (if ep_exercises ?ep = [] then - 1
              else compute_workout_quality (ep_exercises ?ep) example_scenario, ep')"
    "ep_done ep'" "ep_exercises ep' = ep_exercises ?ep" "ep_bandit ep' = ep_bandit ?ep"
    "ep_total_exercises ep' = ep_total_exercises ?ep"
    "ep_total_reward ep' = ep_total_reward ?ep
       + (if ep_exercises ?ep = [] then - 1
          else compute_workout_quality (ep_exercises ?ep) example_scenario)"
    "ep_exercises ?ep = []
       \<longrightarrow> run_episode (0 + Suc 0) main_bandit main_q_agent (\<lambda>n. 3 / 4) example_scenario
             compute_category_reward
           = Some (Inr ((ep_total_reward ?ep - 1, 0), ep_bandit ?ep, ep_q_agent ep', (\<lambda>n. 3 / 4)))"
    by blast
  then have "episode_step example_scenario compute_category_reward ?ep = Inr (- 1, ep')
        \<and> ep_done ep' \<and> ep_exercises ep' = [] \<and> ep_bandit ep' = main_bandit
        \<and> ep_total_exercises ep' = 0 \<and> ep_total_reward ep' = - 1
        \<and> run_episode (Suc 0) main_bandit main_q_agent (\<lambda>n. 3 / 4) example_scenario
             compute_category_reward
           = Some (Inr ((- 1, 0), main_bandit, ep_q_agent ep', (\<lambda>n. 3 / 4)))"
    by (simp only: e if_True simp_thms add_0 diff_0)
  with reach show ?thesis by blast
qed

lemma six_strength_run:
  "map_option (map_sum id fst)
     (run_episode 6 main_bandit main_q_agent (\<lambda>n. 0) example_scenario compute_category_reward)
   = Some (Inr (57 / 10, 6))"
  by code_simp

text \<open>
  Claim C2. Whatever the scenario, the learners, the reward function, the random draws and
  the iteration bound, an episode that returns reports between 0 and 6 exercises: the loop
  tests \<open>total_exercises < max_exercises\<close> before every iteration and an iteration adds at
  most one exercise (\<open>episode_step_counts\<close>).
\<close>

theorem episode_at_most_max:
  assumes "run_episode fuel b ag g sc rf = Some (Inr ((total_reward, total_exercises), rest))"
  shows "0 \<le> total_exercises \<and> total_exercises \<le> 6"
proof -
  from assms obtain ep' where
    l: "run_loop fuel sc rf (initial_episode b ag g sc) = Some (Inr ep')"
    and t: "total_exercises = ep_total_exercises ep'"
    by (auto simp: run_episode_def split: option.splits sum.splits)
  from run_loop_bound [OF l] t show ?thesis
    by (simp add: initial_episode_def max_exercises_def)
qed

theorem episode_at_most_max_witness:
  "\<exists>rest. run_episode 6 main_bandit main_q_agent (\<lambda>n. 0) example_scenario
             compute_category_reward = Some (Inr ((57 / 10, 6), rest))
          \<and> (0::int) \<le> 6 \<and> (6::int) \<le> 6"
proof -
  obtain rest where h: "run_episode 6 main_bandit main_q_agent (\<lambda>n. 0) example_scenario
             compute_category_reward = Some (Inr ((57 / 10, 6), rest))"
    using six_strength_run
    by (cases "run_episode 6 main_bandit main_q_agent (\<lambda>n. 0) example_scenario
             compute_category_reward") (auto simp: map_sum_def split: sum.splits)
  from episode_at_most_max [OF h] h show ?thesis by blast
qed

text \<open>
  Claim C3. If the agent's action list holds only the four declared actions and the draws
  lie in \<open>[0, 1)\<close>, every iteration that completes either sets \<open>done\<close> or increments
  \<open>total_exercises\<close> (\<open>episode_step_progress\<close>), so the loop ends within
  \<open>max_exercises + 1\<close> iterations (six already suffice, \<open>run_loop_terminates\<close>): the episode
  never reaches the iteration bound. It ends by an exception only if the action list is
  empty or a bandit counter is negative; otherwise it returns its pair of totals.
\<close>

theorem episode_terminates:
  assumes "set (agent_actions ag) \<subseteq> set controller_actions" and "valid_rng g"
    and "nat max_exercises + 1 \<le> fuel"
  shows "\<exists>res. run_episode fuel b ag g sc rf = Some res
           \<and> (agent_actions ag \<noteq> [] \<and> bandit_inv b \<longrightarrow> (\<exists>out. res = Inr out))"
proof -
  let ?ep = "initial_episode b ag g sc"
  have "(if ep_done ?ep then 0 else max_exercises - ep_total_exercises ?ep) \<le> int fuel"
    using assms(3) by (simp add: initial_episode_def max_exercises_def)
  from run_loop_terminates [of ?ep fuel sc rf, OF _ _ this] assms(1,2)
  obtain res where "run_loop fuel sc rf ?ep = Some res"
    "agent_actions ag \<noteq> [] \<and> bandit_inv b \<longrightarrow> (\<exists>ep'. res = Inr ep')"
    by (auto simp: initial_episode_def)
  then show ?thesis
    by (cases res) (auto simp: run_episode_def)
qed

theorem episode_terminates_witness:
  "set (agent_actions main_q_agent) \<subseteq> set controller_actions
   \<and> valid_rng (\<lambda>n. 1 / 2)
   \<and> nat max_exercises + 1 \<le> 7
   \<and> agent_actions main_q_agent \<noteq> []
   \<and> bandit_inv main_bandit
   \<and> (\<exists>out. run_episode 7 main_bandit main_q_agent (\<lambda>n. 1 / 2) example_scenario
                compute_category_reward = Some (Inr out))"
proof -
  have a: "set (agent_actions main_q_agent) \<subseteq> set controller_actions"
    by (simp add: main_q_agent_def QLearningAgent_init_def)
  have v: "valid_rng (\<lambda>n. 1 / 2)" by (simp add: valid_rng_def)
  have f: "nat max_exercises + 1 \<le> 7" by (simp add: max_exercises_def)
  have n: "agent_actions main_q_agent \<noteq> []"
    by (simp add: main_q_agent_def QLearningAgent_init_def controller_actions_def)
  have b: "bandit_inv main_bandit" by (simp add: main_bandit_def bandit_inv_init)
  from episode_terminates [OF a v f, of main_bandit example_scenario compute_category_reward] n b
  have "\<exists>out. run_episode 7 main_bandit main_q_agent (\<lambda>n. 1 / 2) example_scenario
                compute_category_reward = Some (Inr out)"
    by auto
  with a v f n b show ?thesis by simp
qed

text \<open>
  The hypothesis on the action list is needed: an agent whose only action is one the
  controller does not map takes the \<open>-0.1\<close> branch in every iteration, changes neither
  \<open>done\<close> nor the count, and the loop reaches every iteration bound.
\<close>

lemma undeclared_action_step:
  assumes "agent_actions (ep_q_agent ep) = [''foo'']" and "valid_rng (ep_rng ep)"
  shows "\<exists>ep'. episode_step sc rf ep = Inr (- (1 / 10), ep')
           \<and> agent_actions (ep_q_agent ep') = [''foo''] \<and> valid_rng (ep_rng ep')
           \<and> ep_done ep' = ep_done ep \<and> ep_total_exercises ep' = ep_total_exercises ep"
proof -
  have ne: "agent_actions (ep_q_agent ep) \<noteq> []" using assms(1) by simp
  from select_action_total [OF assms(2) ne] obtain action ag1 g1 where
    sel: "QLearningAgent_select_action (ep_q_agent ep) (ep_state ep) (ep_rng ep) = Inr (action, ag1, g1)"
    by (metis prod_cases3)
  from select_action_InrD [OF assms(2) sel] assms(1)
  have a: "action = ''foo''" and ag1: "agent_actions ag1 = [''foo'']" and g1: "valid_rng g1"
    by simp_all
  have act: "step_action sc rf ''foo'' ep = Inr (- (1 / 10), ep)"
    by (simp add: step_action_def map_action_to_category_def)
  have "agent_actions ag1 \<noteq> []" using ag1 by simp
  from q_update_result [OF this] ag1 obtain ag2 where
    upd: "QLearningAgent_update ag1 (ep_state ep) ''foo'' (- (1 / 10))
            (get_state (ep_exercises ep) (ep_exercise_rewards ep) sc) = Inr ag2"
    and ag2: "agent_actions ag2 = [''foo'']"
    by simp
  show ?thesis using sel a act upd ag2 g1 by (simp add: episode_step_def Let_def)
qed

lemma undeclared_action_loops:
  assumes "agent_actions (ep_q_agent ep) = [''foo'']" and "valid_rng (ep_rng ep)"
    and "\<not> ep_done ep" and "ep_total_exercises ep < max_exercises"
  shows "run_loop fuel sc rf ep = None"
  using assms
proof (induction fuel arbitrary: ep)
  case 0
  then show ?case by simp
next
  case (Suc fuel)
  from undeclared_action_step [OF Suc.prems(1,2), of sc rf] obtain ep' where
    st: "episode_step sc rf ep = Inr (- (1 / 10), ep')"
    and inv: "agent_actions (ep_q_agent ep') = [''foo'']" "valid_rng (ep_rng ep')"
      "ep_done ep' = ep_done ep" "ep_total_exercises ep' = ep_total_exercises ep"
    by blast
  have "run_loop fuel sc rf ep' = None"
    using Suc.IH [of ep'] inv Suc.prems(3,4) by simp
  then show ?case using st Suc.prems(3,4) by simp
qed

lemma undeclared_action_episode:
  assumes "agent_actions ag = [''foo'']" and "valid_rng g"
  shows "run_episode fuel b ag g sc rf = None"
  using undeclared_action_loops [of "initial_episode b ag g sc" fuel sc rf] assms
  by (simp add: run_episode_def initial_episode_def max_exercises_def)

end
